theory Spec2Isabelle
  imports Complex_Main
begin

section \<open>Python strings\<close>

text \<open>
  A Python \<^verbatim>\<open>str\<close> is a sequence of Unicode code points and \<^verbatim>\<open>len\<close> counts code
  points, so a string is a list of code points (natural numbers), not of bytes.
  \<open>ustr\<close> reads an ASCII literal as such a string.
\<close>

type_synonym pystr = "nat list"

definition ustr :: "string \<Rightarrow> pystr" where
  "ustr s = map of_char s"

definition nl :: nat where
  "nl = 10"

definition hash :: nat where
  "hash = 35"

text \<open>
  The code points for which \<^verbatim>\<open>str.isspace\<close> holds. Both \<^verbatim>\<open>str.strip()\<close> and the
  class \<^verbatim>\<open>\s\<close> of a \<^verbatim>\<open>str\<close> pattern use this predicate.
\<close>

definition is_space :: "nat \<Rightarrow> bool" where
  "is_space c \<longleftrightarrow>
     (9 \<le> c \<and> c \<le> 13) \<or> (28 \<le> c \<and> c \<le> 32) \<or> c = 133 \<or> c = 160 \<or> c = 5760 \<or>
     (8192 \<le> c \<and> c \<le> 8202) \<or> c = 8232 \<or> c = 8233 \<or> c = 8239 \<or> c = 8287 \<or>
     c = 12288"

text \<open>\<^verbatim>\<open>content.split("\n")\<close>: the empty string gives one empty line.\<close>

fun split_nl :: "pystr \<Rightarrow> pystr list" where
  "split_nl [] = [[]]"
| "split_nl (c # cs) =
     (if c = nl then [] # split_nl cs
      else (case split_nl cs of [] \<Rightarrow> [[c]] | l # ls \<Rightarrow> (c # l) # ls))"

text \<open>\<^verbatim>\<open>sep.join(xs)\<close>.\<close>

fun join :: "pystr \<Rightarrow> pystr list \<Rightarrow> pystr" where
  "join sep [] = []"
| "join sep [x] = x"
| "join sep (x # y # ys) = x @ sep @ join sep (y # ys)"

text \<open>\<^verbatim>\<open>s.strip()\<close>: whitespace removed at both ends.\<close>

definition strip :: "pystr \<Rightarrow> pystr" where
  "strip s = rev (dropWhile is_space (rev (dropWhile is_space s)))"

section \<open>The header pattern\<close>

text \<open>
  \<^verbatim>\<open>re.match(r"^(#{1,4})\s+(.+)$", line)\<close>, as the backtracking matcher runs it.
  \<open>match_title\<close> is \<^verbatim>\<open>(.+)$\<close> at the current position: the dot takes every
  character up to the next newline, and \<^verbatim>\<open>$\<close> holds at the end of the string or
  before a newline that ends it. Giving characters back cannot help, since \<^verbatim>\<open>$\<close>
  fails before any character but that newline.
  \<open>match_spaces j r\<close> is the greedy \<^verbatim>\<open>\s+\<close>: it tries \<open>j\<close> whitespace characters,
  then \<open>j - 1\<close>, down to one. \<open>match_hashes k line\<close> is the greedy \<^verbatim>\<open>#{1,4}\<close>: it
  tries \<open>k\<close> hash signs, then fewer, down to one. The result is the pair of
  \<^verbatim>\<open>len(header_match.group(1))\<close> and \<^verbatim>\<open>header_match.group(2)\<close>.
\<close>

definition match_title :: "pystr \<Rightarrow> pystr option" where
  "match_title r =
     (let t = takeWhile (\<lambda>c. c \<noteq> nl) r; e = drop (length t) r
      in if t \<noteq> [] \<and> (e = [] \<or> e = [nl]) then Some t else None)"

fun match_spaces :: "nat \<Rightarrow> pystr \<Rightarrow> pystr option" where
  "match_spaces 0 r = None"
| "match_spaces (Suc j) r =
     (case match_title (drop (Suc j) r) of
        Some t \<Rightarrow> Some t
      | None \<Rightarrow> match_spaces j r)"

fun match_hashes :: "nat \<Rightarrow> pystr \<Rightarrow> (nat \<times> pystr) option" where
  "match_hashes 0 line = None"
| "match_hashes (Suc k) line =
     (let r = drop (Suc k) line
      in case match_spaces (length (takeWhile is_space r)) r of
           Some t \<Rightarrow> Some (Suc k, t)
         | None \<Rightarrow> match_hashes k line)"

definition header_match :: "pystr \<Rightarrow> (nat \<times> pystr) option" where
  "header_match line =
     match_hashes (min 4 (length (takeWhile (\<lambda>c. c = hash) line))) line"

section \<open>The chunker\<close>

record chunk =
  "text" :: pystr
  header :: pystr
  source :: pystr

text \<open>The local variables of \<^verbatim>\<open>chunk_markdown\<close> that the loop updates.\<close>

record loop_state =
  chunks :: "chunk list"
  current_chunk :: "pystr list"
  current_header :: pystr
  header_stack :: "(nat \<times> pystr) list"

text \<open>
  The block that the source has twice (lines 23-32 in the loop, lines 46-51 after it):
  a non-empty buffer is joined and stripped, and appended to \<open>chunks\<close> when the
  stripped text is non-empty and longer than 50.
\<close>

definition append_chunk :: "pystr \<Rightarrow> loop_state \<Rightarrow> chunk list" where
  "append_chunk filename s =
     (if current_chunk s \<noteq> [] then
        (let chunk_text = strip (join [nl] (current_chunk s))
         in if chunk_text \<noteq> [] \<and> 50 < length chunk_text
            then chunks s @ [\<lparr>text = chunk_text, header = current_header s, source = filename\<rparr>]
            else chunks s)
      else chunks s)"

text \<open>
  \<^verbatim>\<open>while header_stack and header_stack[-1][0] >= level: header_stack.pop()\<close>.
  The top of the stack is the last element of the list.
\<close>

function pop_stack :: "nat \<Rightarrow> (nat \<times> pystr) list \<Rightarrow> (nat \<times> pystr) list" where
  "pop_stack level hs =
     (if hs \<noteq> [] \<and> level \<le> fst (last hs) then pop_stack level (butlast hs) else hs)"
  by pat_completeness auto
termination
  by (relation "measure (\<lambda>(level, hs). length hs)") auto

declare pop_stack.simps [simp del]

text \<open>One iteration of \<^verbatim>\<open>for line in lines\<close>.\<close>

definition step :: "pystr \<Rightarrow> loop_state \<Rightarrow> pystr \<Rightarrow> loop_state" where
  "step filename s line =
     (case header_match line of
        Some (level, header_text) \<Rightarrow>
          (let header_stack' = pop_stack level (header_stack s) @ [(level, header_text)]
           in \<lparr>chunks = append_chunk filename s,
               current_chunk = [line],
               current_header = join (ustr '' > '') (map snd header_stack'),
               header_stack = header_stack'\<rparr>)
      | None \<Rightarrow> s\<lparr>current_chunk := current_chunk s @ [line]\<rparr>)"

definition init :: "pystr \<Rightarrow> loop_state" where
  "init filename =
     \<lparr>chunks = [], current_chunk = [], current_header = filename, header_stack = []\<rparr>"

text \<open>The state after the loop has run over the given lines.\<close>

definition run :: "pystr \<Rightarrow> pystr list \<Rightarrow> loop_state" where
  "run filename ls = foldl (step filename) (init filename) ls"

definition chunk_markdown :: "pystr \<Rightarrow> pystr \<Rightarrow> chunk list" where
  "chunk_markdown content filename =
     append_chunk filename (run filename (split_nl content))"

section \<open>The vector store and the console\<close>

text \<open>
  The vector store is an external collaborator. Its state is the content of the one
  collection both tools use, \<^verbatim>\<open>bug-fix-skills\<close>: \<open>None\<close> when the collection does not
  exist, otherwise its entries in insertion order. Every call made to the store is
  recorded in \<open>calls\<close>, every \<^verbatim>\<open>print\<close> appends its argument to \<open>stdout\<close>. Embedding and
  nearest-neighbour search are opaque: the answer of \<^verbatim>\<open>collection.query\<close> is a parameter
  \<open>knn\<close>. Creating the directory and opening the client have no effect on these and are
  left out.
\<close>

text \<open>
  A Python \<^verbatim>\<open>float\<close> is an IEEE 754 binary64 number: a finite value, an infinity (the
  flag says whether it is the negative one) or a NaN. A finite value is given by the real
  number it denotes; the sign of a zero is not kept, since it decides nothing here: a zero
  distance of either sign is falsy, and \<^verbatim>\<open>1 - x\<close> is zero only for \<^verbatim>\<open>x = 1.0\<close>, where it
  is the positive zero.
\<close>

datatype pyfloat = Finite real | Infinity bool | NaN

record metadata =
  meta_header :: pystr
  meta_source :: pystr

record entry =
  entry_id :: pystr
  document :: pystr
  meta :: metadata

record query_result =
  documents :: "pystr list list option"
  metadatas :: "metadata list list option"
  distances :: "pyfloat list list option"

type_synonym knn = "entry list \<Rightarrow> pystr \<Rightarrow> nat \<Rightarrow> query_result"

datatype call = Delete_collection | Create_collection | Get_collection | Add "entry list"
  | Query pystr nat

datatype store_error = Not_found

datatype py_error = TypeError | IndexError

datatype outcome = Returned | Exited nat | Raised py_error

record world =
  stdout :: "pystr list"
  store :: "entry list option"
  calls :: "call list"

definition print :: "pystr \<Rightarrow> world \<Rightarrow> world" where
  "print s w = w\<lparr>stdout := stdout w @ [s]\<rparr>"

text \<open>\<^verbatim>\<open>client.delete_collection\<close> raises when the collection does not exist.\<close>

definition delete_collection :: "world \<Rightarrow> store_error option \<times> world" where
  "delete_collection w =
     (if store w = None then Some Not_found else None,
      w\<lparr>store := None, calls := calls w @ [Delete_collection]\<rparr>)"

definition create_collection :: "world \<Rightarrow> world" where
  "create_collection w = w\<lparr>store := Some [], calls := calls w @ [Create_collection]\<rparr>"

definition add :: "pystr list \<Rightarrow> metadata list \<Rightarrow> pystr list \<Rightarrow> world \<Rightarrow> world" where
  "add docs metas ids w =
     (let es = map (\<lambda>(i, d, m). \<lparr>entry_id = i, document = d, meta = m\<rparr>)
                 (zip ids (zip docs metas))
      in w\<lparr>store := map_option (\<lambda>old. old @ es) (store w), calls := calls w @ [Add es]\<rparr>)"

definition query_store :: "knn \<Rightarrow> pystr \<Rightarrow> nat \<Rightarrow> world \<Rightarrow> query_result \<times> world" where
  "query_store knn q n w =
     (knn (case store w of None \<Rightarrow> [] | Some es \<Rightarrow> es) q n,
      w\<lparr>calls := calls w @ [Query q n]\<rparr>)"

text \<open>\<^verbatim>\<open>str(n)\<close> for a natural number \<open>n\<close>, as an f-string renders it.\<close>

function str_nat :: "nat \<Rightarrow> pystr" where
  "str_nat n = (if n < 10 then [48 + n] else str_nat (n div 10) @ [48 + n mod 10])"
  by pat_completeness auto
termination
  by (relation "measure (\<lambda>n. n)") auto

declare str_nat.simps [simp del]

definition quote :: nat where
  "quote = 39"

section \<open>The indexer\<close>

text \<open>
  The body of the loop over \<^verbatim>\<open>SKILLS_DIR.glob("*.md")\<close>; a file is its name and its
  content, the files come in the order the glob yields them.
\<close>

definition process_file :: "world \<times> chunk list \<Rightarrow> pystr \<times> pystr \<Rightarrow> world \<times> chunk list" where
  "process_file acc md_file =
     (case acc of (w, all_chunks) \<Rightarrow>
      case md_file of (name, content) \<Rightarrow>
        (let w1 = print (ustr ''Processing: '' @ name) w;
             cs = chunk_markdown content name;
             w2 = print (ustr ''  -> '' @ str_nat (length cs) @ ustr '' chunks'') w1
         in (w2, all_chunks @ cs)))"

text \<open>The diagnostic query at the end of \<^verbatim>\<open>main\<close> (lines 104-109).\<close>

definition print_hit :: "world \<Rightarrow> nat \<times> pystr \<times> metadata \<Rightarrow> world" where
  "print_hit w hit =
     (case hit of (i, doc, m) \<Rightarrow>
        print (ustr ''    '' @ take 150 doc @ ustr ''...'')
          (print ([nl] @ ustr ''['' @ str_nat (i + 1) @ ustr ''] '' @ meta_source m @ ustr '' > '' @
                  meta_header m) w))"

definition smoke_test :: "query_result \<Rightarrow> world \<Rightarrow> world" where
  "smoke_test results w =
     (case (documents results, metadatas results) of
        (Some (docs # _), Some (metas # _)) \<Rightarrow>
          foldl print_hit w (zip [0..<length docs] (zip docs metas))
      | _ \<Rightarrow> w)"

definition main :: "(pystr \<times> pystr) list \<Rightarrow> knn \<Rightarrow> world \<Rightarrow> world" where
  "main files knn w0 =
     (let (err, w1) = delete_collection w0;
          w2 = (case err of None \<Rightarrow> print (ustr ''Deleted existing collection'') w1
                | Some e \<Rightarrow> w1);
          w3 = create_collection w2;
          (w4, all_chunks) = foldl process_file (w3, []) files
      in if all_chunks = [] then print (ustr ''No chunks found!'') w4
         else
           (let docs = map text all_chunks;
                metas = map (\<lambda>c. \<lparr>meta_header = header c, meta_source = source c\<rparr>) all_chunks;
                ids = map (\<lambda>i. ustr ''chunk_'' @ str_nat i) [0..<length all_chunks];
                w5 = add docs metas ids w4;
                w6 = print ([nl] @ ustr ''Indexed '' @ str_nat (length all_chunks) @
                            ustr '' chunks into '' @ [quote] @ ustr ''bug-fix-skills'' @ [quote] @
                            ustr '' collection'') w5;
                w7 = print ([nl] @ ustr ''--- Test Query: '' @ [quote] @
                            ustr ''import error module not found'' @ [quote] @ ustr '' ---'') w6;
                (results, w8) = query_store knn (ustr ''import error module not found'') 3 w7
            in smoke_test results w8))"

text \<open>A store whose query reports nothing.\<close>

definition no_hits :: knn where
  "no_hits es q n = \<lparr>documents = None, metadatas = None, distances = None\<rparr>"

text \<open>
  Two stores whose query reports one result: the first with the distance 1.0, the second
  with no distances.
\<close>

definition one_hit :: knn where
  "one_hit es q n =
     \<lparr>documents = Some [[ustr ''body'']],
      metadatas = Some [[\<lparr>meta_header = ustr ''A'', meta_source = ustr ''a.md''\<rparr>]],
      distances = Some [[Finite 1]]\<rparr>"

definition one_hit_no_distance :: knn where
  "one_hit_no_distance es q n =
     \<lparr>documents = Some [[ustr ''body'']],
      metadatas = Some [[\<lparr>meta_header = ustr ''A'', meta_source = ustr ''a.md''\<rparr>]],
      distances = None\<rparr>"

section \<open>The query tool\<close>

text \<open>
  Rounding of a real number to the nearest integer, ties to the even one, and rounding of
  a real number to binary64 in the default mode (to nearest, ties to the even significand):
  the spacing of the doubles around \<open>x\<close> is \<open>2 ^ (e - 52)\<close> for the exponent \<open>e\<close> of \<open>x\<close>, at
  least \<open>-1022\<close> (below that the subnormal numbers have the spacing \<open>2 ^ -1074\<close>); a result
  of magnitude \<open>2 ^ 1024\<close> is an overflow and gives an infinity.
\<close>

definition round_half_even :: "real \<Rightarrow> int" where
  "round_half_even x =
     (let f = \<lfloor>x\<rfloor>; d = x - of_int f
      in if d < 1 / 2 then f else if 1 / 2 < d then f + 1 else if even f then f else f + 1)"

definition round64 :: "real \<Rightarrow> pyfloat" where
  "round64 x =
     (if x = 0 then Finite 0
      else
        (let e = max \<lfloor>log 2 \<bar>x\<bar>\<rfloor> (- 1022);
             u = 2 powi (e - 52);
             y = of_int (round_half_even (x / u)) * u
         in if 2 ^ 1024 \<le> \<bar>y\<bar> then Infinity (x < 0) else Finite y))"

text \<open>
  The three float operations of the query tool, each with its constant operand:
  \<^verbatim>\<open>distance / 2\<close>, \<^verbatim>\<open>1 - x\<close> and the \<^verbatim>\<open>x * 100\<close> of the percent format; and the truth
  value of a float in \<^verbatim>\<open>if distance\<close>: false for a zero, true otherwise, also for a NaN.
\<close>

definition half :: "pyfloat \<Rightarrow> pyfloat" where
  "half d = (case d of Finite x \<Rightarrow> round64 (x / 2) | Infinity neg \<Rightarrow> Infinity neg | NaN \<Rightarrow> NaN)"

definition one_minus :: "pyfloat \<Rightarrow> pyfloat" where
  "one_minus d =
     (case d of Finite x \<Rightarrow> round64 (1 - x) | Infinity neg \<Rightarrow> Infinity (\<not> neg) | NaN \<Rightarrow> NaN)"

definition times100 :: "pyfloat \<Rightarrow> pyfloat" where
  "times100 d =
     (case d of Finite x \<Rightarrow> round64 (x * 100) | Infinity neg \<Rightarrow> Infinity neg | NaN \<Rightarrow> NaN)"

definition truthy :: "pyfloat \<Rightarrow> bool" where
  "truthy d = (case d of Finite x \<Rightarrow> x \<noteq> 0 | Infinity neg \<Rightarrow> True | NaN \<Rightarrow> True)"

text \<open>Line 37: \<^verbatim>\<open>relevance = 1 - (distance / 2) if distance else 1.0\<close>.\<close>

definition relevance :: "pyfloat \<Rightarrow> pyfloat" where
  "relevance distance = (if truthy distance then one_minus (half distance) else Finite 1)"

text \<open>
  \<^verbatim>\<open>f"{relevance:.0%}"\<close>: the float is multiplied by 100 as a float, then written with no
  digit after the point (the exact value of the double rounded to an integer, ties to
  even, with its sign), or as \<^verbatim>\<open>inf\<close> or \<^verbatim>\<open>nan\<close>, and followed by a percent sign.
\<close>

definition format_percent :: "pyfloat \<Rightarrow> pystr" where
  "format_percent r =
     (case times100 r of
        Finite x \<Rightarrow>
          (if x < 0 then ustr ''-'' else []) @ str_nat (nat (round_half_even \<bar>x\<bar>)) @ ustr ''%''
      | Infinity neg \<Rightarrow> (if neg then ustr ''-'' else []) @ ustr ''inf%''
      | NaN \<Rightarrow> ustr ''nan%'')"

text \<open>
  The third argument of \<^verbatim>\<open>zip\<close> (lines 32-34): the first distance list when
  \<^verbatim>\<open>results["distances"]\<close> is truthy, otherwise one zero for every document.
\<close>

definition result_distances :: "query_result \<Rightarrow> pystr list \<Rightarrow> pyfloat list" where
  "result_distances results docs =
     (case distances results of
        Some (ds # _) \<Rightarrow> ds
      | _ \<Rightarrow> replicate (length docs) (Finite 0))"

text \<open>The body of the loop over the results (lines 37-47).\<close>

definition show_result :: "world \<Rightarrow> nat \<times> pystr \<times> metadata \<times> pyfloat \<Rightarrow> world" where
  "show_result w row =
     (case row of (i, doc, m, distance) \<Rightarrow>
        (let w1 = print ([nl] @ ustr ''['' @ str_nat (i + 1) @ ustr ''] '' @ meta_source m @
                         ustr '' > '' @ meta_header m) w;
             w2 = print (ustr ''    Relevance: '' @ format_percent (relevance distance)) w1;
             w3 = print (replicate 60 45) w2;
             ls = split_nl doc;
             preview = join [nl] (take 15 ls) @
               (if 15 < length ls
                then [nl] @ ustr ''... ('' @ str_nat (length ls - 15) @ ustr '' more lines)''
                else []);
             w4 = print preview w3
         in print [] w4))"

definition query :: "knn \<Rightarrow> pystr \<Rightarrow> nat \<Rightarrow> world \<Rightarrow> outcome \<times> world" where
  "query knn query_text n_results w0 =
     (let w1 = w0\<lparr>calls := calls w0 @ [Get_collection]\<rparr>
      in if store w1 = None then
           (Exited 1,
            print (ustr ''Run '' @ [quote] @ ustr ''python scripts/index-skills.py'' @ [quote] @
                   ustr '' first to index the documents.'')
              (print (ustr ''Error: Collection '' @ [quote] @ ustr ''bug-fix-skills'' @ [quote] @
                      ustr '' not found.'') w1))
         else
           (let (results, w2) = query_store knn query_text n_results w1
            in case documents results of
                 None \<Rightarrow> (Returned, print (ustr ''No results found.'') w2)
               | Some [] \<Rightarrow> (Returned, print (ustr ''No results found.'') w2)
               | Some (docs # _) \<Rightarrow>
                   if docs = [] then (Returned, print (ustr ''No results found.'') w2)
                   else
                     (let w3 = print (ustr ''Query: '' @ query_text @ [nl]) w2;
                          w4 = print (replicate 60 61) w3
                      in case metadatas results of
                           None \<Rightarrow> (Raised TypeError, w4)
                         | Some [] \<Rightarrow> (Raised IndexError, w4)
                         | Some (metas # _) \<Rightarrow>
                             (Returned,
                              foldl show_result w4
                                (zip [0..<length (zip docs (zip metas (result_distances results docs)))]
                                   (zip docs (zip metas (result_distances results docs))))))))"

section \<open>Predicates of the specification\<close>


text \<open>
  A header stack whose levels increase strictly from the bottom (the head of the list)
  to the top and lie between 1 and 4.
\<close>

definition stack_ok :: "(nat \<times> pystr) list \<Rightarrow> bool" where
  "stack_ok hs \<longleftrightarrow>
     sorted_wrt (<) (map fst hs) \<and> (\<forall>h\<in>set hs. 1 \<le> fst h \<and> fst h \<le> 4)"

text \<open>
  The buffers of the specification's algorithm: every header line opens a new buffer that
  starts with it, every other line is appended to the open buffer. The first buffer holds
  the lines before the first header line and may be empty.
\<close>

fun spec_buffers :: "pystr list \<Rightarrow> pystr list list" where
  "spec_buffers [] = [[]]"
| "spec_buffers (l # ls) =
     (case spec_buffers ls of
        [] \<Rightarrow> [[l]]
      | b # bs \<Rightarrow> if header_match l \<noteq> None then [] # (l # b) # bs else (l # b) # bs)"

text \<open>
  The reading of the reconstruction property as the specification words it: the lines of
  the chunk texts, in order, are the lines of the buffers that were not dropped.
\<close>

definition kept :: "pystr list \<Rightarrow> bool" where
  "kept b \<longleftrightarrow> 50 < length (strip (join [nl] b))"

definition reconstructs :: "pystr \<Rightarrow> pystr \<Rightarrow> bool" where
  "reconstructs content filename \<longleftrightarrow>
     concat (map (\<lambda>c. split_nl (text c)) (chunk_markdown content filename)) =
     concat (filter kept (spec_buffers (split_nl content)))"

text \<open>What every emitted text satisfies: non-empty, already stripped, longer than 50.\<close>

definition good_text :: "pystr \<Rightarrow> bool" where
  "good_text t \<longleftrightarrow> t \<noteq> [] \<and> strip t = t \<and> 50 < length t"

text \<open>
  A document of two sections with a blank line between them: a level-1 header of 60
  letters \<open>a\<close>, an empty line, a level-1 header of 60 letters \<open>b\<close>.
\<close>

definition doc_two_sections :: pystr where
  "doc_two_sections =
     ustr ''# '' @ replicate 60 97 @ ustr ''\<newline>\<newline># '' @ replicate 60 98"

text \<open>
  A header path of a run over the lines \<open>ls\<close>: the file name, or the titles of the header
  stack as it stands after some number \<open>n\<close> of the lines, where that stack is not empty,
  joined with \<open>" > "\<close>.
\<close>

definition path_of_run :: "pystr \<Rightarrow> pystr list \<Rightarrow> pystr \<Rightarrow> bool" where
  "path_of_run filename ls p \<longleftrightarrow>
     p = filename \<or>
     (\<exists>n. header_stack (run filename (take n ls)) \<noteq> [] \<and>
        p = join (ustr '' > '') (map snd (header_stack (run filename (take n ls)))))"

section \<open>Facts about the string operations\<close>

lemma split_nl_not_Nil: "split_nl s \<noteq> []"
  by (induction s) (auto split: list.splits)

lemma split_nl_append: "split_nl (a @ nl # b) = split_nl a @ split_nl b"
  using split_nl_not_Nil by (induction a) (auto split: list.splits)

lemma split_nl_no_nl: "nl \<notin> set s \<Longrightarrow> split_nl s = [s]"
  by (induction s) auto


lemma join_Cons: "ys \<noteq> [] \<Longrightarrow> join sep (x # ys) = x @ sep @ join sep ys"
  by (cases ys) auto

lemma join_split_nl: "join [nl] (split_nl s) = s"
proof (induction s)
  case Nil
  show ?case by simp
next
  case (Cons c cs)
  show ?case
  proof (cases "c = nl")
    case True
    with Cons show ?thesis by (simp add: join_Cons split_nl_not_Nil)
  next
    case False
    obtain l ls where e: "split_nl cs = l # ls"
      using split_nl_not_Nil by (cases "split_nl cs") auto
    with Cons have "join [nl] (l # ls) = cs" by simp
    then have "join [nl] ((c # l) # ls) = c # cs" by (cases ls) auto
    with False e show ?thesis by simp
  qed
qed

lemma rev_dropWhile_takeWhile:
  "xs = rev (dropWhile P (rev xs)) @ rev (takeWhile P (rev xs))"
  by (metis rev_append rev_rev_ident takeWhile_dropWhile_id)

lemma strip_Nil: "strip [] = []"
  by (simp add: strip_def)

lemma strip_eq_Nil: "strip s = [] \<longleftrightarrow> (\<forall>c\<in>set s. is_space c)"
proof
  assume "strip s = []"
  then have a: "\<forall>x\<in>set (dropWhile is_space s). is_space x"
    by (simp add: strip_def dropWhile_eq_Nil_conv)
  have "dropWhile is_space s = []"
  proof (rule ccontr)
    assume n: "dropWhile is_space s \<noteq> []"
    then have "\<not> is_space (hd (dropWhile is_space s))" by (rule hd_dropWhile)
    with a n show False by (meson hd_in_set)
  qed
  then show "\<forall>c\<in>set s. is_space c" by (simp add: dropWhile_eq_Nil_conv)
next
  assume "\<forall>c\<in>set s. is_space c"
  then have "dropWhile is_space s = []" by (metis dropWhile_eq_Nil_conv)
  then show "strip s = []" by (metis strip_def dropWhile.simps(1) rev.simps(1))
qed

lemma strip_decomp:
  "\<exists>a b. s = a @ strip s @ b \<and> (\<forall>c\<in>set a. is_space c) \<and> (\<forall>c\<in>set b. is_space c)"
proof -
  let ?d = "dropWhile is_space s"
  have 1: "s = takeWhile is_space s @ ?d" by simp
  have "?d = rev (dropWhile is_space (rev ?d)) @ rev (takeWhile is_space (rev ?d))"
    by (rule rev_dropWhile_takeWhile)
  then have 3: "?d = strip s @ rev (takeWhile is_space (rev ?d))" by (simp add: strip_def)
  have "s = takeWhile is_space s @ strip s @ rev (takeWhile is_space (rev ?d))"
    using 1 3 by metis
  moreover have "\<forall>c\<in>set (takeWhile is_space s). is_space c"
    by (meson set_takeWhileD)
  moreover have "\<forall>c\<in>set (rev (takeWhile is_space (rev ?d))). is_space c"
    by (metis set_rev set_takeWhileD)
  ultimately show ?thesis by blast
qed

lemma strip_hd: "strip s \<noteq> [] \<Longrightarrow> \<not> is_space (hd (strip s))"
proof -
  assume n: "strip s \<noteq> []"
  let ?d = "dropWhile is_space s"
  let ?e = "dropWhile is_space (rev ?d)"
  have e: "?e \<noteq> []" using n by (simp add: strip_def)
  then have d: "?d \<noteq> []" by (cases "?d") auto
  have "\<not> is_space (hd ?d)" using d by (rule hd_dropWhile)
  moreover have "hd (strip s) = hd ?d"
  proof -
    have "?d = rev ?e @ rev (takeWhile is_space (rev ?d))"
      by (rule rev_dropWhile_takeWhile)
    then have "hd ?d = hd (rev ?e)" using e by (metis hd_append2 rev_is_Nil_conv)
    then show ?thesis by (simp add: strip_def)
  qed
  ultimately show ?thesis by simp
qed

lemma strip_last: "strip s \<noteq> [] \<Longrightarrow> \<not> is_space (last (strip s))"
proof -
  assume n: "strip s \<noteq> []"
  let ?e = "dropWhile is_space (rev (dropWhile is_space s))"
  have e: "?e \<noteq> []" using n by (simp add: strip_def)
  then have "\<not> is_space (hd ?e)" by (rule hd_dropWhile)
  moreover have "last (strip s) = hd ?e" using e by (simp add: strip_def last_rev)
  ultimately show ?thesis by simp
qed

lemma strip_pad:
  assumes a: "\<forall>c\<in>set a. is_space c" and b: "\<forall>c\<in>set b. is_space c" and m: "m \<noteq> []"
    and h: "\<not> is_space (hd m)" and l: "\<not> is_space (last m)"
  shows "strip (a @ m @ b) = m"
proof -
  have "dropWhile is_space (a @ m @ b) = dropWhile is_space (m @ b)"
    using a by (intro dropWhile_append2) simp
  moreover have "dropWhile is_space (m @ b) = m @ b"
    using m h by (cases m) auto
  ultimately have 1: "dropWhile is_space (a @ m @ b) = m @ b" by simp
  have "dropWhile is_space (rev b @ rev m) = dropWhile is_space (rev m)"
    using b by (intro dropWhile_append2) simp
  moreover have "dropWhile is_space (rev m) = rev m"
    using m l by (cases m rule: rev_cases) auto
  ultimately have "dropWhile is_space (rev b @ rev m) = rev m" by simp
  with 1 show ?thesis by (simp add: strip_def)
qed

lemma strip_id: "s \<noteq> [] \<Longrightarrow> \<not> is_space (hd s) \<Longrightarrow> \<not> is_space (last s) \<Longrightarrow> strip s = s"
  using strip_pad [of "[]" "[]" s] by simp

lemma strip_strip: "strip (strip s) = strip s"
proof (cases "strip s = []")
  case True
  then show ?thesis by (simp add: strip_Nil)
next
  case False
  then show ?thesis by (intro strip_id strip_hd strip_last)
qed

lemma length_strip: "length (strip s) \<le> length s"
  unfolding strip_def
  by (metis length_dropWhile_le length_rev order_trans)

section \<open>Facts about the header pattern\<close>

lemma not_space_hash: "\<not> is_space hash"
  by (simp add: is_space_def hash_def)

lemma is_space_nl: "is_space nl"
  by (simp add: is_space_def nl_def)

lemma match_title_no_nl:
  "nl \<notin> set r \<Longrightarrow> match_title r = (if r = [] then None else Some r)"
proof -
  assume "nl \<notin> set r"
  then have t: "takeWhile (\<lambda>c. c \<noteq> nl) r = r" by (intro takeWhile_eq_all_conv[THEN iffD2]) auto
  show ?thesis unfolding match_title_def t by simp
qed

lemma match_title_Nil: "match_title [] = None"
  by (simp add: match_title_def)

lemma match_title_Some: "match_title r = Some t \<Longrightarrow> t \<noteq> []"
  by (auto simp: match_title_def Let_def split: if_splits)

lemma match_spaces_Some: "match_spaces j r = Some t \<Longrightarrow> t \<noteq> []"
  by (induction j) (auto split: option.splits dest: match_title_Some)

lemma match_spaces_no_nl:
  "nl \<notin> set r \<Longrightarrow>
   match_spaces j r =
     (if 1 \<le> j \<and> 2 \<le> length r then Some (drop (min j (length r - 1)) r) else None)"
proof (induction j)
  case 0
  show ?case by simp
next
  case (Suc j)
  have d: "nl \<notin> set (drop (Suc j) r)" using Suc.prems by (meson in_set_dropD)
  show ?case
  proof (cases "Suc j < length r")
    case True
    then have "min (Suc j) (length r - 1) = Suc j" by simp
    with True show ?thesis by (simp add: match_title_no_nl [OF d])
  next
    case False
    then have m: "min (Suc j) (length r - 1) = length r - 1" "min j (length r - 1) = length r - 1"
      by simp_all
    from False have "match_spaces (Suc j) r = match_spaces j r"
      by (simp add: match_title_Nil)
    also have "\<dots> = (if 1 \<le> j \<and> 2 \<le> length r then Some (drop (length r - 1) r) else None)"
      using Suc.IH [OF Suc.prems] m by simp
    also have "\<dots> = (if 1 \<le> Suc j \<and> 2 \<le> length r then Some (drop (length r - 1) r) else None)"
      using False by auto
    finally show ?thesis using m by simp
  qed
qed

lemma leading_hash:
  assumes "k < length (takeWhile (\<lambda>c. c = hash) line)"
  shows "drop k line \<noteq> [] \<and> hd (drop k line) = hash"
proof -
  let ?t = "takeWhile (\<lambda>c. c = hash) line"
  have le: "length ?t \<le> length line" by (rule length_takeWhile_le)
  with assms have k: "k < length line" by simp
  have "?t ! k \<in> set ?t" using assms by (rule nth_mem)
  then have "?t ! k = hash" by (meson set_takeWhileD)
  moreover have "?t ! k = line ! k" using assms by (rule takeWhile_nth)
  ultimately have "line ! k = hash" by simp
  with k show ?thesis by (simp add: hd_drop_conv_nth)
qed

lemma match_hashes_short:
  "k < length (takeWhile (\<lambda>c. c = hash) line) \<Longrightarrow> match_hashes k line = None"
proof (induction k)
  case 0
  show ?case by simp
next
  case (Suc k)
  from leading_hash [OF Suc.prems] obtain r where "drop (Suc k) line = hash # r"
    by (cases "drop (Suc k) line") auto
  then have "takeWhile is_space (drop (Suc k) line) = []"
    by (simp add: not_space_hash)
  moreover have "match_hashes k line = None" using Suc by simp
  ultimately show ?case by (simp add: Let_def)
qed

lemma header_match_eq:
  "header_match line =
     (let h = length (takeWhile (\<lambda>c. c = hash) line); r = drop h line
      in if 1 \<le> h \<and> h \<le> 4
         then map_option (Pair h) (match_spaces (length (takeWhile is_space r)) r)
         else None)"
proof -
  let ?h = "length (takeWhile (\<lambda>c. c = hash) line)"
  show ?thesis
  proof (cases "1 \<le> ?h \<and> ?h \<le> 4")
    case True
    then obtain k where k: "?h = Suc k" by (cases ?h) auto
    then have "match_hashes k line = None" by (intro match_hashes_short) simp
    moreover have "min 4 ?h = Suc k" using True k by simp
    ultimately show ?thesis using True k
      by (simp add: header_match_def Let_def split: option.splits)
  next
    case False
    then consider "?h = 0" | "4 < ?h" by linarith
    then show ?thesis
    proof cases
      case 1
      then show ?thesis by (simp add: header_match_def)
    next
      case 2
      then have "min 4 ?h = 4" by simp
      moreover have "match_hashes 4 line = None" using 2 by (intro match_hashes_short)
      ultimately show ?thesis using 2 by (simp add: header_match_def Let_def)
    qed
  qed
qed

lemma header_match_Some:
  "header_match line = Some (level, title) \<Longrightarrow>
   level = length (takeWhile (\<lambda>c. c = hash) line) \<and> 1 \<le> level \<and> level \<le> 4 \<and> title \<noteq> []"
  by (auto simp: header_match_eq Let_def split: if_splits dest: match_spaces_Some)

lemma header_match_no_nl:
  "nl \<notin> set line \<Longrightarrow>
   header_match line =
     (let h = length (takeWhile (\<lambda>c. c = hash) line); r = drop h line;
          w = length (takeWhile is_space r)
      in if 1 \<le> h \<and> h \<le> 4 \<and> 1 \<le> w \<and> 2 \<le> length r
         then Some (h, drop (min w (length r - 1)) r) else None)"
proof -
  assume a: "nl \<notin> set line"
  have "nl \<notin> set (drop (length (takeWhile (\<lambda>c. c = hash) line)) line)"
    using a by (meson in_set_dropD)
  then show ?thesis
    by (simp add: header_match_eq Let_def match_spaces_no_nl)
qed




section \<open>Facts about the loop\<close>

lemma step_header:
  "header_match line = Some (level, title) \<Longrightarrow>
   step f s line =
     \<lparr>chunks = append_chunk f s, current_chunk = [line],
      current_header = join (ustr '' > '') (map snd (pop_stack level (header_stack s) @ [(level, title)])),
      header_stack = pop_stack level (header_stack s) @ [(level, title)]\<rparr>"
  by (simp add: step_def Let_def)

lemma step_plain:
  "header_match line = None \<Longrightarrow> step f s line = s\<lparr>current_chunk := current_chunk s @ [line]\<rparr>"
  by (simp add: step_def)

lemma foldl_plain:
  "\<forall>l\<in>set ls. header_match l = None \<Longrightarrow>
   foldl (step f) s ls = s\<lparr>current_chunk := current_chunk s @ ls\<rparr>"
  by (induction ls arbitrary: s) (simp_all add: step_plain)

lemma run_append: "run f (pre @ ls) = foldl (step f) (run f pre) ls"
  by (simp add: run_def)

lemma run_snoc: "run f (pre @ [l]) = step f (run f pre) l"
  by (simp add: run_def)

lemma pop_stack_Nil: "pop_stack level [] = []"
  by (simp add: pop_stack.simps)

lemma pop_stack_snoc:
  "pop_stack level (hs @ [h]) = (if level \<le> fst h then pop_stack level hs else hs @ [h])"
  by (subst pop_stack.simps) simp

lemma pop_stack_filter:
  "sorted_wrt (<) (map fst hs) \<Longrightarrow> pop_stack level hs = filter (\<lambda>h. fst h < level) hs"
proof (induction hs rule: rev_induct)
  case Nil
  show ?case by (simp add: pop_stack_Nil)
next
  case (snoc h hs)
  from snoc.prems have s: "sorted_wrt (<) (map fst hs)" and lt: "\<forall>x\<in>set hs. fst x < fst h"
    by (auto simp: sorted_wrt_append)
  show ?case
  proof (cases "level \<le> fst h")
    case True
    then show ?thesis using snoc.IH [OF s] by (simp add: pop_stack_snoc)
  next
    case False
    then have "\<forall>x\<in>set hs. fst x < level" using lt by auto
    then have "filter (\<lambda>h. fst h < level) hs = hs" by simp
    with False show ?thesis by (simp add: pop_stack_snoc)
  qed
qed

lemma stack_ok_Nil: "stack_ok []"
  by (simp add: stack_ok_def)

lemma stack_ok_push:
  assumes "stack_ok hs" "1 \<le> level" "level \<le> 4"
  shows "stack_ok (pop_stack level hs @ [(level, title)])"
proof -
  from assms(1) have s: "sorted_wrt (<) (map fst hs)" by (simp add: stack_ok_def)
  have "sorted_wrt (<) (map fst (filter (\<lambda>h. fst h < level) hs))"
    using s by (induction hs) auto
  then show ?thesis
    using assms unfolding pop_stack_filter [OF s] stack_ok_def
    by (auto simp: sorted_wrt_append)
qed

lemma stack_ok_length: "stack_ok hs \<Longrightarrow> length hs \<le> 4"
proof -
  assume a: "stack_ok hs"
  then have "distinct (map fst hs)"
    unfolding stack_ok_def by (metis strict_sorted_iff)
  then have "length hs = card (set (map fst hs))" by (metis distinct_card length_map)
  also have "\<dots> \<le> card {1..4::nat}"
    using a by (intro card_mono) (auto simp: stack_ok_def)
  finally show ?thesis by simp
qed

lemma run_stack_ok: "stack_ok (header_stack (run f ls))"
proof (induction ls rule: rev_induct)
  case Nil
  show ?case by (simp add: run_def init_def stack_ok_Nil)
next
  case (snoc l ls)
  show ?case
  proof (cases "header_match l")
    case None
    then show ?thesis using snoc by (simp add: run_snoc step_plain)
  next
    case (Some p)
    obtain level title where p: "p = (level, title)" by (cases p)
    with Some have "1 \<le> level" "level \<le> 4" using header_match_Some by blast+
    then show ?thesis using snoc Some p
      by (simp add: run_snoc step_header stack_ok_push)
  qed
qed

section \<open>Facts about the chunks and the buffers\<close>

lemma append_chunk_eq:
  "append_chunk f s =
     chunks s @
     (if kept (current_chunk s)
      then [\<lparr>text = strip (join [nl] (current_chunk s)), header = current_header s, source = f\<rparr>]
      else [])"
  by (cases "current_chunk s = []") (auto simp: append_chunk_def kept_def Let_def strip_Nil)

lemma kept_Nil: "\<not> kept []"
  by (simp add: kept_def strip_Nil)

lemma append_chunk_good:
  "\<forall>c\<in>set (chunks s). good_text (text c) \<Longrightarrow> \<forall>c\<in>set (append_chunk f s). good_text (text c)"
  by (auto simp: append_chunk_eq kept_def good_text_def strip_strip)

lemma run_chunks_good: "\<forall>c\<in>set (chunks (run f ls)). good_text (text c)"
proof (induction ls rule: rev_induct)
  case Nil
  show ?case by (simp add: run_def init_def)
next
  case (snoc l ls)
  show ?case
  proof (cases "header_match l")
    case None
    then show ?thesis using snoc by (simp add: run_snoc step_plain)
  next
    case (Some p)
    obtain level title where "p = (level, title)" by (cases p)
    with Some have "chunks (run f (ls @ [l])) = append_chunk f (run f ls)"
      by (simp add: run_snoc step_header)
    then show ?thesis using append_chunk_good [OF snoc] by simp
  qed
qed

lemma chunk_markdown_good: "\<forall>c\<in>set (chunk_markdown content f). good_text (text c)"
  unfolding chunk_markdown_def by (rule append_chunk_good [OF run_chunks_good])

lemma spec_buffers_not_Nil: "spec_buffers ls \<noteq> []"
  by (induction ls) (auto split: list.splits)

lemma spec_buffers_header:
  "header_match l \<noteq> None \<Longrightarrow>
   spec_buffers (l # ls) = [] # (l # hd (spec_buffers ls)) # tl (spec_buffers ls)"
  using spec_buffers_not_Nil [of ls] by (cases "spec_buffers ls") auto

lemma spec_buffers_plain:
  "header_match l = None \<Longrightarrow>
   spec_buffers (l # ls) = (l # hd (spec_buffers ls)) # tl (spec_buffers ls)"
  using spec_buffers_not_Nil [of ls] by (cases "spec_buffers ls") auto

lemma concat_spec_buffers: "concat (spec_buffers ls) = ls"
proof (induction ls)
  case Nil
  show ?case by simp
next
  case (Cons l ls)
  have "concat (spec_buffers ls) = hd (spec_buffers ls) @ concat (tl (spec_buffers ls))"
    using spec_buffers_not_Nil [of ls] by (cases "spec_buffers ls") auto
  with Cons show ?case
    by (cases "header_match l = None") (simp_all add: spec_buffers_header spec_buffers_plain del: spec_buffers.simps)
qed

lemma texts_from:
  "map text (append_chunk f (foldl (step f) s ls)) =
     map text (chunks s) @
     map (\<lambda>b. strip (join [nl] b))
       (filter kept ((current_chunk s @ hd (spec_buffers ls)) # tl (spec_buffers ls)))"
proof (induction ls arbitrary: s)
  case Nil
  show ?case by (simp add: append_chunk_eq)
next
  case (Cons l ls)
  show ?case
  proof (cases "header_match l")
    case None
    then show ?thesis
      using Cons [of "step f s l"]
      by (simp add: step_plain spec_buffers_plain del: spec_buffers.simps)
  next
    case (Some p)
    obtain level title where p: "p = (level, title)" by (cases p)
    have "header_match l \<noteq> None" using Some by simp
    then have b: "spec_buffers (l # ls) = [] # (l # hd (spec_buffers ls)) # tl (spec_buffers ls)"
      by (rule spec_buffers_header)
    show ?thesis
      using Cons [of "step f s l"] Some p unfolding b
      by (simp add: step_header append_chunk_eq)
  qed
qed

lemma chunk_markdown_texts:
  "map text (chunk_markdown content f) =
     map (\<lambda>b. strip (join [nl] b)) (filter kept (spec_buffers (split_nl content)))"
  using texts_from [of f "init f" "split_nl content"] spec_buffers_not_Nil [of "split_nl content"]
  by (simp add: chunk_markdown_def run_def init_def)

lemma spec_buffers_shape:
  "(\<forall>l\<in>set (hd (spec_buffers ls)). header_match l = None) \<and>
   (\<forall>b\<in>set (tl (spec_buffers ls)).
      b \<noteq> [] \<and> header_match (hd b) \<noteq> None \<and> (\<forall>l\<in>set (tl b). header_match l = None))"
proof (induction ls)
  case Nil
  show ?case by simp
next
  case (Cons l ls)
  then show ?case
    by (cases "header_match l = None")
      (simp_all add: spec_buffers_header spec_buffers_plain del: spec_buffers.simps)
qed

lemma no_header_chunks:
  assumes "\<forall>l\<in>set (split_nl content). header_match l = None"
  shows "chunk_markdown content f =
     (if 50 < length (strip content)
      then [\<lparr>text = strip content, header = f, source = f\<rparr>] else [])"
  by (simp add: chunk_markdown_def run_def foldl_plain [OF assms] append_chunk_eq init_def
      kept_def join_split_nl)

section \<open>Which lines are headers\<close>

lemma header_match_level2: "header_match (ustr ''## B'') = Some (2, ustr ''B'')"
  by (simp add: header_match_no_nl ustr_def nl_def hash_def is_space_def)



section \<open>Size of the chunks and documents without headers\<close>

lemma not_space_x: "\<not> is_space 120" "\<not> is_space 97" "\<not> is_space 98"
  by (simp_all add: is_space_def)

lemma strip_replicate: "\<not> is_space x \<Longrightarrow> strip (replicate (Suc n) x) = replicate (Suc n) x"
  by (rule strip_id) (simp_all del: replicate.simps add: hd_replicate last_replicate)

lemma header_match_replicate: "x \<noteq> hash \<Longrightarrow> header_match (replicate n x) = None"
  by (simp add: header_match_eq takeWhile_replicate)

lemma plain_replicate:
  "x \<noteq> nl \<Longrightarrow> x \<noteq> hash \<Longrightarrow> \<forall>l\<in>set (split_nl (replicate n x)). header_match l = None"
  by (simp add: split_nl_no_nl header_match_replicate)



text \<open>
  C6: a document without header lines gives at most one chunk: exactly one when the
  trimmed document is longer than 50 characters, none otherwise; the header path of that
  chunk is the file name and its text is the trimmed document.
\<close>

theorem no_header_single_chunk:
  assumes "\<forall>l\<in>set (split_nl content). header_match l = None"
  shows "chunk_markdown content filename =
     (if 50 < length (strip content)
      then [\<lparr>text = strip content, header = filename, source = filename\<rparr>] else [])"
  using assms by (rule no_header_chunks)

theorem no_header_single_chunk_witness:
  "chunk_markdown (replicate 51 120) (ustr ''a.md'') =
     [\<lparr>text = replicate 51 120, header = ustr ''a.md'', source = ustr ''a.md''\<rparr>] \<and>
   chunk_markdown (replicate 50 120) (ustr ''a.md'') = []"
proof -
  have s50: "strip (replicate 50 120) = replicate 50 120"
    using strip_replicate [of 120 49] by (simp add: not_space_x)
  have s51: "strip (replicate 51 120) = replicate 51 120"
    using strip_replicate [of 120 50] by (simp add: not_space_x)
  have p50: "\<forall>l\<in>set (split_nl (replicate 50 120)). header_match l = None"
    by (rule plain_replicate) (simp_all add: nl_def hash_def)
  have p51: "\<forall>l\<in>set (split_nl (replicate 51 120)). header_match l = None"
    by (rule plain_replicate) (simp_all add: nl_def hash_def)
  show ?thesis
    using no_header_single_chunk [OF p50, of "ustr ''a.md''"]
      no_header_single_chunk [OF p51, of "ustr ''a.md''"]
    by (simp add: s50 s51)
qed

section \<open>Blank documents\<close>

lemma set_join: "c \<in> set (join sep ls) \<Longrightarrow> c \<in> set sep \<or> (\<exists>l\<in>set ls. c \<in> set l)"
  by (induction sep ls rule: join.induct) auto

lemma header_has_hash: "header_match l \<noteq> None \<Longrightarrow> hash \<in> set l"
proof -
  assume "header_match l \<noteq> None"
  then obtain level title where "header_match l = Some (level, title)" by auto
  then have "0 < length (takeWhile (\<lambda>c. c = hash) l)" using header_match_Some by fastforce
  from leading_hash [OF this] show ?thesis by (cases l) auto
qed

lemma blank_lines_plain:
  assumes "\<forall>l\<in>set ls. \<forall>c\<in>set l. is_space c"
  shows "\<forall>l\<in>set ls. header_match l = None"
  using assms header_has_hash not_space_hash by blast

lemma blank_lines_strip:
  assumes "\<forall>l\<in>set (split_nl content). \<forall>c\<in>set l. is_space c"
  shows "strip content = []"
proof -
  have "\<forall>c\<in>set (join [nl] (split_nl content)). is_space c"
    using assms set_join [of _ "[nl]" "split_nl content"] is_space_nl by fastforce
  then show ?thesis by (simp add: strip_eq_Nil join_split_nl)
qed

text \<open>
  C9: empty content gives no chunk, although \<open>split\<close> turns the empty string into the
  one-line list \<open>[""]\<close> and the buffer after the loop is therefore non-empty; content
  whose lines are all whitespace gives no chunk either; and no emitted chunk has a text
  that is empty after trimming.
\<close>

theorem blank_content_no_chunks:
  "chunk_markdown [] filename = [] \<and>
   split_nl [] = [[]] \<and> current_chunk (run filename (split_nl [])) = [[]] \<and>
   ((\<forall>l\<in>set (split_nl content). \<forall>c\<in>set l. is_space c) \<longrightarrow>
      chunk_markdown content filename = []) \<and>
   (\<forall>c\<in>set (chunk_markdown content filename). strip (text c) \<noteq> [])"
proof -
  have 1: "chunk_markdown [] filename = []"
    by (simp add: no_header_chunks header_match_eq strip_Nil)
  have 2: "current_chunk (run filename (split_nl [])) = [[]]"
    by (simp add: run_def init_def step_plain header_match_eq)
  have 3: "(\<forall>l\<in>set (split_nl content). \<forall>c\<in>set l. is_space c) \<longrightarrow>
      chunk_markdown content filename = []"
    using blank_lines_plain [of "split_nl content"] blank_lines_strip [of content]
    by (simp add: no_header_chunks)
  have 4: "\<forall>c\<in>set (chunk_markdown content filename). strip (text c) \<noteq> []"
    using chunk_markdown_good [of content filename] by (auto simp: good_text_def)
  from 1 2 3 4 show ?thesis by simp
qed

theorem blank_content_no_chunks_witness:
  "chunk_markdown (ustr ''  \<newline> \<newline>'') (ustr ''a.md'') = [] \<and>
   strip (text (hd (chunk_markdown (replicate 51 120) (ustr ''a.md'')))) \<noteq> []"
proof -
  have b: "\<forall>l\<in>set (split_nl (ustr ''  \<newline> \<newline>'')). \<forall>c\<in>set l. is_space c"
    by (simp add: ustr_def nl_def is_space_def)
  have "\<forall>l\<in>set (split_nl (replicate 51 120)). header_match l = None"
    by (rule plain_replicate) (simp_all add: nl_def hash_def)
  then have c: "chunk_markdown (replicate 51 120) (ustr ''a.md'') =
      [\<lparr>text = strip (replicate 51 120), header = ustr ''a.md'', source = ustr ''a.md''\<rparr>]"
    using strip_replicate [of 120 50] by (simp add: no_header_chunks not_space_x)
  show ?thesis
    using blank_content_no_chunks [of "ustr ''a.md''" "ustr ''  \<newline> \<newline>''"]
      blank_content_no_chunks [of "ustr ''a.md''" "replicate 51 120"] b c
    by simp
qed

section \<open>Chunks and the line sequence\<close>

lemma is_space_32: "is_space 32"
  by (simp add: is_space_def)

lemma header_match_title_line:
  assumes "\<not> is_space x" "x \<noteq> nl"
  shows "header_match (ustr ''# '' @ replicate (Suc n) x) = Some (1, replicate (Suc n) x)"
proof -
  have n: "nl \<notin> set (ustr ''# '' @ replicate (Suc n) x)"
    using assms by (simp add: ustr_def nl_def)
  show ?thesis
    unfolding header_match_no_nl [OF n] using assms(1)
    by (simp add: ustr_def hash_def is_space_32)
qed

lemma title_line_strip:
  assumes "\<not> is_space x" "\<forall>c\<in>set b. is_space c"
  shows "strip (ustr ''# '' @ replicate (Suc n) x @ b) = ustr ''# '' @ replicate (Suc n) x"
proof -
  have "strip ([] @ (ustr ''# '' @ replicate (Suc n) x) @ b) = ustr ''# '' @ replicate (Suc n) x"
    using assms not_space_hash
    by (intro strip_pad) (simp_all add: ustr_def hash_def del: replicate.simps)
  then show ?thesis by simp
qed

lemma doc_two_sections_lines:
  "split_nl doc_two_sections =
     [ustr ''# '' @ replicate 60 97, [], ustr ''# '' @ replicate 60 98]"
proof -
  have a: "split_nl (ustr ''# '' @ replicate 60 97) = [ustr ''# '' @ replicate 60 97]"
    by (rule split_nl_no_nl) (simp add: ustr_def nl_def)
  have b: "split_nl (ustr ''# '' @ replicate 60 98) = [ustr ''# '' @ replicate 60 98]"
    by (rule split_nl_no_nl) (simp add: ustr_def nl_def)
  have c: "split_nl (nl # ustr ''# '' @ replicate 60 98) = [[], ustr ''# '' @ replicate 60 98]"
    using b by simp
  have d: "doc_two_sections =
      (ustr ''# '' @ replicate 60 97) @ nl # (nl # ustr ''# '' @ replicate 60 98)"
    by (simp add: doc_two_sections_def ustr_def nl_def)
  have "split_nl doc_two_sections =
      split_nl (ustr ''# '' @ replicate 60 97) @ split_nl (nl # ustr ''# '' @ replicate 60 98)"
    unfolding d by (rule split_nl_append)
  then show ?thesis by (simp only: a c append.simps)
qed

lemma doc_two_sections_buffers:
  "spec_buffers (split_nl doc_two_sections) =
     [[], [ustr ''# '' @ replicate 60 97, []], [ustr ''# '' @ replicate 60 98]]"
proof -
  have a: "header_match (ustr ''# '' @ replicate 60 97) \<noteq> None"
    using header_match_title_line [of 97 59] by (simp add: not_space_x nl_def)
  have b: "header_match (ustr ''# '' @ replicate 60 98) \<noteq> None"
    using header_match_title_line [of 98 59] by (simp add: not_space_x nl_def)
  have e: "header_match [] = None" by (simp add: header_match_eq)
  show ?thesis unfolding doc_two_sections_lines using a b e
    by (simp del: replicate.simps)
qed

lemma kept_two_sections:
  "kept [ustr ''# '' @ replicate 60 97, []]" "kept [ustr ''# '' @ replicate 60 98]"
proof -
  have a: "strip (join [nl] [ustr ''# '' @ replicate 60 97, []]) = ustr ''# '' @ replicate 60 97"
    using title_line_strip [of 97 "[nl]" 59] by (simp add: not_space_x is_space_nl)
  have b: "strip (join [nl] [ustr ''# '' @ replicate 60 98]) = ustr ''# '' @ replicate 60 98"
    using title_line_strip [of 98 "[]" 59] by (simp add: not_space_x)
  show "kept [ustr ''# '' @ replicate 60 97, []]" unfolding kept_def a by (simp add: ustr_def)
  show "kept [ustr ''# '' @ replicate 60 98]" unfolding kept_def b by (simp add: ustr_def)
qed

lemma doc_two_sections_texts:
  "map text (chunk_markdown doc_two_sections (ustr ''a.md'')) =
     [ustr ''# '' @ replicate 60 97, ustr ''# '' @ replicate 60 98]"
proof -
  have a: "strip (join [nl] [ustr ''# '' @ replicate 60 97, []]) = ustr ''# '' @ replicate 60 97"
    using title_line_strip [of 97 "[nl]" 59] by (simp add: not_space_x is_space_nl)
  have b: "strip (join [nl] [ustr ''# '' @ replicate 60 98]) = ustr ''# '' @ replicate 60 98"
    using title_line_strip [of 98 "[]" 59] by (simp add: not_space_x)
  have ka: "kept [ustr ''# '' @ replicate 60 97, []]" unfolding kept_def a by (simp add: ustr_def)
  have kb: "kept [ustr ''# '' @ replicate 60 98]" unfolding kept_def b by (simp add: ustr_def)
  show ?thesis
    unfolding chunk_markdown_texts doc_two_sections_buffers
    using ka kb a b by (simp add: kept_Nil del: replicate.simps join.simps)
qed

text \<open>
  C3, as the specification states it, fails: the two chunks of \<open>doc_two_sections\<close> have
  the two header lines as texts, no buffer with content is dropped, and the empty line
  between the sections is in no chunk text, so the texts do not give back the line sequence.
\<close>

theorem reconstruction_counterexample:
  "\<not> reconstructs doc_two_sections (ustr ''a.md'') \<and>
   split_nl doc_two_sections =
     [ustr ''# '' @ replicate 60 97, [], ustr ''# '' @ replicate 60 98] \<and>
   map text (chunk_markdown doc_two_sections (ustr ''a.md'')) =
     [ustr ''# '' @ replicate 60 97, ustr ''# '' @ replicate 60 98] \<and>
   filter kept (spec_buffers (split_nl doc_two_sections)) =
     [[ustr ''# '' @ replicate 60 97, []], [ustr ''# '' @ replicate 60 98]] \<and>
   join [nl] (map text (chunk_markdown doc_two_sections (ustr ''a.md''))) \<noteq> doc_two_sections"
proof -
  let ?t = "map text (chunk_markdown doc_two_sections (ustr ''a.md''))"
  have k: "filter kept (spec_buffers (split_nl doc_two_sections)) =
      [[ustr ''# '' @ replicate 60 97, []], [ustr ''# '' @ replicate 60 98]]"
    unfolding doc_two_sections_buffers
    by (simp add: kept_Nil kept_two_sections del: replicate.simps)
  have l: "concat (map (\<lambda>c. split_nl (text c)) (chunk_markdown doc_two_sections (ustr ''a.md''))) =
      concat (map split_nl ?t)"
    by (simp add: comp_def)
  have a: "split_nl (ustr ''# '' @ replicate 60 97) = [ustr ''# '' @ replicate 60 97]"
    by (rule split_nl_no_nl) (simp add: ustr_def nl_def)
  have b: "split_nl (ustr ''# '' @ replicate 60 98) = [ustr ''# '' @ replicate 60 98]"
    by (rule split_nl_no_nl) (simp add: ustr_def nl_def)
  have c: "concat (map split_nl ?t) = [ustr ''# '' @ replicate 60 97, ustr ''# '' @ replicate 60 98]"
    unfolding doc_two_sections_texts by (simp only: list.map concat.simps a b append.simps)
  have 1: "\<not> reconstructs doc_two_sections (ustr ''a.md'')"
    unfolding reconstructs_def l c k by simp
  have "length (join [nl] ?t) \<noteq> length doc_two_sections"
    unfolding doc_two_sections_texts by (simp add: doc_two_sections_def ustr_def)
  then have 4: "join [nl] ?t \<noteq> doc_two_sections" by auto
  from 1 k 4 doc_two_sections_lines doc_two_sections_texts show ?thesis by simp
qed

text \<open>
  C3, amended: the buffers partition the line sequence in document order (the first holds
  the lines before the first header line, every later one starts with a header line and
  holds no other), and the texts of the chunks are, in the same order, the buffers whose
  newline-joined text is longer than 50 characters after trimming, each with the whitespace
  at its two ends removed.
\<close>

theorem chunks_are_trimmed_buffers:
  "concat (spec_buffers (split_nl content)) = split_nl content \<and>
   map text (chunk_markdown content filename) =
     map (\<lambda>b. strip (join [nl] b)) (filter kept (spec_buffers (split_nl content))) \<and>
   (\<forall>l\<in>set (hd (spec_buffers (split_nl content))). header_match l = None) \<and>
   (\<forall>b\<in>set (tl (spec_buffers (split_nl content))).
      b \<noteq> [] \<and> header_match (hd b) \<noteq> None \<and> (\<forall>l\<in>set (tl b). header_match l = None))"
  using concat_spec_buffers [of "split_nl content"] chunk_markdown_texts [of content filename]
    spec_buffers_shape [of "split_nl content"]
  by simp

theorem chunks_are_trimmed_buffers_witness:
  "map text (chunk_markdown doc_two_sections (ustr ''a.md'')) =
     [ustr ''# '' @ replicate 60 97, ustr ''# '' @ replicate 60 98] \<and>
   concat [[], [ustr ''# '' @ replicate 60 97, []], [ustr ''# '' @ replicate 60 98]] =
     split_nl doc_two_sections \<and>
   header_match (ustr ''# '' @ replicate 60 97) \<noteq> None \<and>
   header_match [] = None \<and>
   header_match (replicate 51 120) = None"
proof -
  have a: "strip (join [nl] [ustr ''# '' @ replicate 60 97, []]) = ustr ''# '' @ replicate 60 97"
    using title_line_strip [of 97 "[nl]" 59] by (simp add: not_space_x is_space_nl)
  have b: "strip (join [nl] [ustr ''# '' @ replicate 60 98]) = ustr ''# '' @ replicate 60 98"
    using title_line_strip [of 98 "[]" 59] by (simp add: not_space_x)
  have p: "spec_buffers (split_nl (replicate 51 120)) = [[replicate 51 120]]"
    by (simp add: split_nl_no_nl nl_def header_match_replicate hash_def del: replicate.simps)
  have 1: "map text (chunk_markdown doc_two_sections (ustr ''a.md'')) =
     [ustr ''# '' @ replicate 60 97, ustr ''# '' @ replicate 60 98] \<and>
   concat [[], [ustr ''# '' @ replicate 60 97, []], [ustr ''# '' @ replicate 60 98]] =
     split_nl doc_two_sections \<and>
   header_match (ustr ''# '' @ replicate 60 97) \<noteq> None \<and>
   header_match [] = None"
    using chunks_are_trimmed_buffers [of doc_two_sections "ustr ''a.md''"]
    unfolding doc_two_sections_buffers
    by (simp add: kept_Nil kept_two_sections a b del: replicate.simps join.simps)
  have 2: "header_match (replicate 51 120) = None"
    using chunks_are_trimmed_buffers [of "replicate 51 120" "ustr ''a.md''"]
    unfolding p by (simp del: replicate.simps)
  from 1 2 show ?thesis by simp
qed

section \<open>Header paths\<close>

lemma run_current_header:
  "current_header (run f ls) =
     (if header_stack (run f ls) = [] then f
      else join (ustr '' > '') (map snd (header_stack (run f ls))))"
proof (induction ls rule: rev_induct)
  case Nil
  show ?case by (simp add: run_def init_def)
next
  case (snoc l ls)
  show ?case
  proof (cases "header_match l")
    case None
    then show ?thesis using snoc by (simp add: run_snoc step_plain)
  next
    case (Some p)
    obtain level title where "p = (level, title)" by (cases p)
    with Some show ?thesis by (simp add: run_snoc step_header)
  qed
qed

lemma path_of_run_current: "path_of_run f ls (current_header (run f ls))"
proof (cases "header_stack (run f ls) = []")
  case True
  then show ?thesis by (simp add: path_of_run_def run_current_header)
next
  case False
  have "take (length ls) ls = ls" by simp
  with False have "header_stack (run f (take (length ls) ls)) \<noteq> [] \<and>
      current_header (run f ls) =
        join (ustr '' > '') (map snd (header_stack (run f (take (length ls) ls))))"
    by (simp add: run_current_header)
  then show ?thesis unfolding path_of_run_def by blast
qed

lemma path_of_run_mono:
  assumes "path_of_run f ls p"
  shows "path_of_run f (ls @ ls') p"
proof (cases "p = f")
  case True
  then show ?thesis by (simp add: path_of_run_def)
next
  case False
  with assms obtain n where n: "header_stack (run f (take n ls)) \<noteq> []"
    "p = join (ustr '' > '') (map snd (header_stack (run f (take n ls))))"
    unfolding path_of_run_def by blast
  have "take (min n (length ls)) (ls @ ls') = take n ls" by (simp add: min_def)
  with n have "header_stack (run f (take (min n (length ls)) (ls @ ls'))) \<noteq> [] \<and>
      p = join (ustr '' > '') (map snd (header_stack (run f (take (min n (length ls)) (ls @ ls')))))"
    by simp
  then show ?thesis unfolding path_of_run_def by blast
qed

lemma append_chunk_paths:
  assumes "\<forall>c\<in>set (chunks s). path_of_run f ls (header c)" "path_of_run f ls (current_header s)"
  shows "\<forall>c\<in>set (append_chunk f s). path_of_run f ls (header c)"
  using assms by (auto simp: append_chunk_eq)

lemma run_chunk_paths: "\<forall>c\<in>set (chunks (run f ls)). path_of_run f ls (header c)"
proof (induction ls rule: rev_induct)
  case Nil
  show ?case by (simp add: run_def init_def)
next
  case (snoc l ls)
  have m: "\<forall>c\<in>set (append_chunk f (run f ls)). path_of_run f (ls @ [l]) (header c)"
    using append_chunk_paths [OF snoc path_of_run_current] path_of_run_mono by blast
  show ?case
  proof (cases "header_match l")
    case None
    then have "chunks (run f (ls @ [l])) = chunks (run f ls)"
      by (simp add: run_snoc step_plain)
    then show ?thesis using snoc path_of_run_mono by auto
  next
    case (Some p)
    obtain level title where "p = (level, title)" by (cases p)
    with Some have "chunks (run f (ls @ [l])) = append_chunk f (run f ls)"
      by (simp add: run_snoc step_header)
    then show ?thesis using m by simp
  qed
qed

lemma chunk_markdown_paths:
  "\<forall>c\<in>set (chunk_markdown content f). path_of_run f (split_nl content) (header c)"
  unfolding chunk_markdown_def by (rule append_chunk_paths [OF run_chunk_paths path_of_run_current])

lemma chunks_extend: "\<exists>x. chunks (foldl (step f) s ls) = chunks s @ x"
proof (induction ls arbitrary: s)
  case Nil
  show ?case by simp
next
  case (Cons l ls)
  obtain x where x: "chunks (foldl (step f) (step f s l) ls) = chunks (step f s l) @ x"
    using Cons by blast
  have "\<exists>y. chunks (step f s l) = chunks s @ y"
  proof (cases "header_match l")
    case None
    then show ?thesis by (simp add: step_plain)
  next
    case (Some p)
    obtain level title where "p = (level, title)" by (cases p)
    with Some show ?thesis by (simp add: step_header append_chunk_eq)
  qed
  with x show ?case by auto
qed

lemma chunks_after_boundary:
  assumes "rest = [] \<or> header_match (hd rest) \<noteq> None"
  shows "\<exists>after. append_chunk f (foldl (step f) s rest) = append_chunk f s @ after"
proof (cases rest)
  case Nil
  then show ?thesis by simp
next
  case (Cons h r)
  with assms obtain level title where h: "header_match h = Some (level, title)" by auto
  have c: "chunks (step f s h) = append_chunk f s" using h by (simp add: step_header)
  obtain x where "chunks (foldl (step f) (step f s h) r) = append_chunk f s @ x"
    using chunks_extend [of f "step f s h" r] c by auto
  then show ?thesis using Cons by (simp add: append_chunk_eq)
qed

lemma section_chunk:
  assumes "header_match line = Some (level, title)" "\<forall>l\<in>set body. header_match l = None"
  shows "append_chunk f (run f (pre @ line # body)) =
     append_chunk f (run f pre) @
     (if 50 < length (strip (join [nl] (line # body)))
      then [\<lparr>text = strip (join [nl] (line # body)),
             header = join (ustr '' > '') (map snd (header_stack (run f (pre @ [line])))),
             source = f\<rparr>]
      else [])"
proof -
  have "run f (pre @ line # body) = foldl (step f) (step f (run f pre) line) body"
    by (simp add: run_def)
  also have "\<dots> = (step f (run f pre) line)\<lparr>current_chunk := [line] @ body\<rparr>"
    using assms by (simp add: foldl_plain step_header)
  finally show ?thesis
    using assms(1) by (simp add: append_chunk_eq run_snoc step_header kept_def)
qed

lemma header_match_A: "header_match (ustr ''# A'') = Some (1, ustr ''A'')"
  by (simp add: header_match_no_nl ustr_def nl_def hash_def is_space_def)

lemma header_match_C2: "header_match (ustr ''## C'') = Some (2, ustr ''C'')"
  by (simp add: header_match_no_nl ustr_def nl_def hash_def is_space_def)

lemma header_match_C3: "header_match (ustr ''### C'') = Some (3, ustr ''C'')"
  by (simp add: header_match_no_nl ustr_def nl_def hash_def is_space_def)

lemma stack_after_header:
  assumes "header_match line = Some (level, title)"
  shows "header_stack (run f (pre @ [line])) =
     filter (\<lambda>h. fst h < level) (header_stack (run f pre)) @ [(level, title)]"
proof -
  have "sorted_wrt (<) (map fst (header_stack (run f pre)))"
    using run_stack_ok [of f pre] by (simp add: stack_ok_def)
  then show ?thesis using assms by (simp add: run_snoc step_header pop_stack_filter)
qed

lemma stack_after_plain:
  assumes "\<forall>l\<in>set body. header_match l = None"
  shows "header_stack (run f (pre @ body)) = header_stack (run f pre)"
  using assms by (simp add: run_append foldl_plain)

lemma strip_prefix:
  assumes "s \<noteq> []" "\<not> is_space (hd s)"
  shows "take (length (strip s)) s = strip s"
proof -
  have d: "dropWhile is_space s = s" using assms by (cases s) auto
  have "s = rev (dropWhile is_space (rev s)) @ rev (takeWhile is_space (rev s))"
    by (rule rev_dropWhile_takeWhile)
  then have "s = strip s @ rev (takeWhile is_space (rev s))" by (simp add: strip_def d)
  then show ?thesis by (metis append_eq_conv_conj)
qed

lemma nested_lines:
  "split_nl (ustr ''# A\<newline>## B\<newline>'' @ body_b @ ustr ''\<newline>## C\<newline>'' @ body_c) =
     ustr ''# A'' # ustr ''## B'' # split_nl body_b @ ustr ''## C'' # split_nl body_c"
proof -
  have a: "split_nl (ustr ''# A'') = [ustr ''# A'']"
    by (rule split_nl_no_nl) (simp add: ustr_def nl_def)
  have b: "split_nl (ustr ''## B'') = [ustr ''## B'']"
    by (rule split_nl_no_nl) (simp add: ustr_def nl_def)
  have c: "split_nl (ustr ''## C'') = [ustr ''## C'']"
    by (rule split_nl_no_nl) (simp add: ustr_def nl_def)
  have "ustr ''# A\<newline>## B\<newline>'' @ body_b @ ustr ''\<newline>## C\<newline>'' @ body_c =
      ustr ''# A'' @ nl # (ustr ''## B'' @ nl # (body_b @ nl # (ustr ''## C'' @ nl # body_c)))"
    by (simp add: ustr_def nl_def)
  then show ?thesis by (simp only: split_nl_append a b c append.simps)
qed

lemma short_not_kept: "length (join [nl] b) \<le> 50 \<Longrightarrow> \<not> kept b"
  using length_strip [of "join [nl] b"] by (simp add: kept_def)

section \<open>The nested example\<close>

lemma nested_stacks:
  assumes "\<forall>l\<in>set bl. header_match l = None"
  shows "header_stack (run f [ustr ''# A'']) = [(1, ustr ''A'')]"
    and "header_stack (run f [ustr ''# A'', ustr ''## B'']) = [(1, ustr ''A''), (2, ustr ''B'')]"
    and "header_stack (run f (ustr ''# A'' # ustr ''## B'' # bl @ [ustr ''## C''])) =
           [(1, ustr ''A''), (2, ustr ''C'')]"
proof -
  show 1: "header_stack (run f [ustr ''# A'']) = [(1, ustr ''A'')]"
    using stack_after_header [OF header_match_A, of f "[]"] by (simp add: run_def init_def)
  show 2: "header_stack (run f [ustr ''# A'', ustr ''## B'']) = [(1, ustr ''A''), (2, ustr ''B'')]"
    using stack_after_header [OF header_match_level2, of f "[ustr ''# A'']"] 1 by simp
  have "header_stack (run f ([ustr ''# A'', ustr ''## B''] @ bl)) =
      [(1, ustr ''A''), (2, ustr ''B'')]"
    using stack_after_plain [OF assms, of f "[ustr ''# A'', ustr ''## B'']"] 2 by simp
  then show "header_stack (run f (ustr ''# A'' # ustr ''## B'' # bl @ [ustr ''## C''])) =
           [(1, ustr ''A''), (2, ustr ''C'')]"
    using stack_after_header [OF header_match_C2, of f "[ustr ''# A'', ustr ''## B''] @ bl"]
    by simp
qed

lemma nested_sections_chunks:
  assumes "\<forall>l\<in>set (split_nl body_b). header_match l = None"
    and "\<forall>l\<in>set (split_nl body_c). header_match l = None"
  shows "chunk_markdown
           (ustr ''# A\<newline>## B\<newline>'' @ body_b @ ustr ''\<newline>## C\<newline>'' @ body_c) filename =
         (if 50 < length (strip (ustr ''## B\<newline>'' @ body_b))
          then [\<lparr>text = strip (ustr ''## B\<newline>'' @ body_b), header = ustr ''A > B'',
                 source = filename\<rparr>]
          else []) @
         (if 50 < length (strip (ustr ''## C\<newline>'' @ body_c))
          then [\<lparr>text = strip (ustr ''## C\<newline>'' @ body_c), header = ustr ''A > C'',
                 source = filename\<rparr>]
          else [])"
proof -
  let ?A = "ustr ''# A''" and ?B = "ustr ''## B''" and ?C = "ustr ''## C''"
  let ?bl = "split_nl body_b" and ?cl = "split_nl body_c"
  have jb: "join [nl] (?B # ?bl) = ustr ''## B\<newline>'' @ body_b"
    by (simp add: join_Cons split_nl_not_Nil join_split_nl) (simp add: ustr_def nl_def)
  have jc: "join [nl] (?C # ?cl) = ustr ''## C\<newline>'' @ body_c"
    by (simp add: join_Cons split_nl_not_Nil join_split_nl) (simp add: ustr_def nl_def)
  have 0: "append_chunk filename (run filename []) = []"
    by (simp add: run_def init_def append_chunk_eq kept_Nil)
  have "\<not> 50 < length (strip (join [nl] [?A]))"
    using length_strip [of ?A] by (simp add: ustr_def)
  then have 1: "append_chunk filename (run filename [?A]) = []"
    using section_chunk [OF header_match_A, of "[]" filename "[]"] 0 by simp
  have 2: "append_chunk filename (run filename (?A # ?B # ?bl)) =
      (if 50 < length (strip (ustr ''## B\<newline>'' @ body_b))
       then [\<lparr>text = strip (ustr ''## B\<newline>'' @ body_b), header = ustr ''A > B'',
              source = filename\<rparr>]
       else [])"
    using section_chunk [OF header_match_level2 assms(1), of filename "[?A]"] 1
      nested_stacks(2) [of "[]" filename]
    unfolding jb by (simp add: ustr_def)
  have 3: "append_chunk filename (run filename (?A # ?B # ?bl @ ?C # ?cl)) =
      append_chunk filename (run filename (?A # ?B # ?bl)) @
      (if 50 < length (strip (ustr ''## C\<newline>'' @ body_c))
       then [\<lparr>text = strip (ustr ''## C\<newline>'' @ body_c), header = ustr ''A > C'',
              source = filename\<rparr>]
       else [])"
    using section_chunk [OF header_match_C2 assms(2), of filename "?A # ?B # ?bl"]
      nested_stacks(3) [OF assms(1), of filename]
    unfolding jc by (simp add: ustr_def)
  show ?thesis unfolding chunk_markdown_def nested_lines 3 2 by simp
qed

lemma starts_with_header:
  assumes "50 < length (strip (ustr ''## B\<newline>'' @ body_b))"
  shows "take 4 (strip (ustr ''## B\<newline>'' @ body_b)) = ustr ''## B''"
proof -
  have p: "take (length (strip (ustr ''## B\<newline>'' @ body_b))) (ustr ''## B\<newline>'' @ body_b) =
      strip (ustr ''## B\<newline>'' @ body_b)"
    by (rule strip_prefix) (simp_all add: ustr_def is_space_def)
  have "take 4 (take (length (strip (ustr ''## B\<newline>'' @ body_b))) (ustr ''## B\<newline>'' @ body_b)) =
      take 4 (ustr ''## B\<newline>'' @ body_b)"
    using assms by (simp only: take_take) (simp add: min_def)
  then show ?thesis unfolding p by (simp add: ustr_def)
qed

text \<open>
  C4, as the specification states it, fails: on the literal input every buffer
  (\<open>"# A"\<close>, \<open>"## B\ntext"\<close>, \<open>"## C\nmore"\<close>) has at most 9 characters, so all three are
  dropped by the 50-character rule and no chunk is produced.
\<close>

theorem nested_sections_counterexample:
  "chunk_markdown (ustr ''# A\<newline>## B\<newline>text\<newline>## C\<newline>more'') (ustr ''a.md'') = []"
proof -
  have t: "\<forall>l\<in>set (split_nl (ustr ''text'')). header_match l = None"
    by (simp add: ustr_def nl_def header_match_eq hash_def)
  have m: "\<forall>l\<in>set (split_nl (ustr ''more'')). header_match l = None"
    by (simp add: ustr_def nl_def header_match_eq hash_def)
  have b: "\<not> 50 < length (strip (ustr ''## B\<newline>'' @ ustr ''text''))"
    using length_strip [of "ustr ''## B\<newline>'' @ ustr ''text''"] by (simp add: ustr_def)
  have c: "\<not> 50 < length (strip (ustr ''## C\<newline>'' @ ustr ''more''))"
    using length_strip [of "ustr ''## C\<newline>'' @ ustr ''more''"] by (simp add: ustr_def)
  have "ustr ''# A\<newline>## B\<newline>text\<newline>## C\<newline>more'' =
      ustr ''# A\<newline>## B\<newline>'' @ ustr ''text'' @ ustr ''\<newline>## C\<newline>'' @ ustr ''more''"
    by (simp add: ustr_def)
  then show ?thesis using nested_sections_chunks [OF t m, of "ustr ''a.md''"] b c by simp
qed

text \<open>
  C4, amended: for an input of the same shape, \<open>"# A\n## B\n" + body_b + "\n## C\n" + body_c\<close>,
  whose bodies hold no header line and whose B and C sections are longer than 50
  characters after trimming, the chunks are exactly two: the first has header path
  \<open>"A > B"\<close> and a text that starts with \<open>"## B"\<close>, the second has header path \<open>"A > C"\<close>
  (B is closed when C arrives at the same depth). The line \<open>"# A"\<close> alone gives no chunk.
\<close>

theorem nested_sections_example:
  assumes "\<forall>l\<in>set (split_nl body_b). header_match l = None"
    and "\<forall>l\<in>set (split_nl body_c). header_match l = None"
    and "50 < length (strip (ustr ''## B\<newline>'' @ body_b))"
    and "50 < length (strip (ustr ''## C\<newline>'' @ body_c))"
  shows "chunk_markdown
           (ustr ''# A\<newline>## B\<newline>'' @ body_b @ ustr ''\<newline>## C\<newline>'' @ body_c) filename =
         [\<lparr>text = strip (ustr ''## B\<newline>'' @ body_b), header = ustr ''A > B'', source = filename\<rparr>,
          \<lparr>text = strip (ustr ''## C\<newline>'' @ body_c), header = ustr ''A > C'', source = filename\<rparr>] \<and>
         take 4 (strip (ustr ''## B\<newline>'' @ body_b)) = ustr ''## B''"
  using nested_sections_chunks [OF assms(1,2), of filename] starts_with_header [OF assms(3)]
    assms(3,4) by simp

lemma not_space_35: "\<not> is_space 35"
  using not_space_hash by (simp add: hash_def)

lemma section_long:
  assumes "\<not> is_space x"
  shows "strip (ustr ''## B\<newline>'' @ replicate (Suc n) x) = ustr ''## B\<newline>'' @ replicate (Suc n) x"
    and "strip (ustr ''## C\<newline>'' @ replicate (Suc n) x) = ustr ''## C\<newline>'' @ replicate (Suc n) x"
    and "strip (ustr ''### C\<newline>'' @ replicate (Suc n) x) = ustr ''### C\<newline>'' @ replicate (Suc n) x"
proof -
  have l: "\<And>p. last (p @ replicate (Suc n) x) = x" by simp
  show "strip (ustr ''## B\<newline>'' @ replicate (Suc n) x) = ustr ''## B\<newline>'' @ replicate (Suc n) x"
    by (rule strip_id) (simp_all only: l assms, simp_all add: ustr_def not_space_35)
  show "strip (ustr ''## C\<newline>'' @ replicate (Suc n) x) = ustr ''## C\<newline>'' @ replicate (Suc n) x"
    by (rule strip_id) (simp_all only: l assms, simp_all add: ustr_def not_space_35)
  show "strip (ustr ''### C\<newline>'' @ replicate (Suc n) x) = ustr ''### C\<newline>'' @ replicate (Suc n) x"
    by (rule strip_id) (simp_all only: l assms, simp_all add: ustr_def not_space_35)
qed

theorem nested_sections_example_witness:
  "chunk_markdown
     (ustr ''# A\<newline>## B\<newline>'' @ replicate 60 120 @ ustr ''\<newline>## C\<newline>'' @ replicate 60 120)
     (ustr ''a.md'') =
   [\<lparr>text = ustr ''## B\<newline>'' @ replicate 60 120, header = ustr ''A > B'', source = ustr ''a.md''\<rparr>,
    \<lparr>text = ustr ''## C\<newline>'' @ replicate 60 120, header = ustr ''A > C'', source = ustr ''a.md''\<rparr>]"
proof -
  have p: "\<forall>l\<in>set (split_nl (replicate 60 120)). header_match l = None"
    by (rule plain_replicate) (simp_all add: nl_def hash_def)
  have b: "strip (ustr ''## B\<newline>'' @ replicate 60 120) = ustr ''## B\<newline>'' @ replicate 60 120"
    using section_long(1) [of 120 59] by (simp add: not_space_x)
  have c: "strip (ustr ''## C\<newline>'' @ replicate 60 120) = ustr ''## C\<newline>'' @ replicate 60 120"
    using section_long(2) [of 120 59] by (simp add: not_space_x)
  have lb: "50 < length (strip (ustr ''## B\<newline>'' @ replicate 60 120))"
    unfolding b by (simp add: ustr_def)
  have lc: "50 < length (strip (ustr ''## C\<newline>'' @ replicate 60 120))"
    unfolding c by (simp add: ustr_def)
  show ?thesis
    using nested_sections_example [OF p p lb lc, of "ustr ''a.md''"] unfolding b c by simp
qed

section \<open>The stack discipline\<close>

lemma doc_nested_lines:
  "split_nl (ustr ''# A\<newline>## B\<newline>'' @ replicate 60 120 @ ustr ''\<newline>## C\<newline>'' @ replicate 60 120) =
     [ustr ''# A'', ustr ''## B'', replicate 60 120, ustr ''## C'', replicate 60 120]"
proof -
  have "split_nl (replicate 60 120) = [replicate 60 120]"
    by (rule split_nl_no_nl) (simp add: nl_def)
  then show ?thesis unfolding nested_lines by simp
qed

lemma doc_nested_chunks:
  "chunk_markdown
     (ustr ''# A\<newline>## B\<newline>'' @ replicate 60 120 @ ustr ''\<newline>## C\<newline>'' @ replicate 60 120)
     (ustr ''a.md'') =
   [\<lparr>text = ustr ''## B\<newline>'' @ replicate 60 120, header = ustr ''A > B'', source = ustr ''a.md''\<rparr>,
    \<lparr>text = ustr ''## C\<newline>'' @ replicate 60 120, header = ustr ''A > C'', source = ustr ''a.md''\<rparr>]"
proof -
  have p: "\<forall>l\<in>set (split_nl (replicate 60 120)). header_match l = None"
    by (rule plain_replicate) (simp_all add: nl_def hash_def)
  have b: "strip (ustr ''## B\<newline>'' @ replicate 60 120) = ustr ''## B\<newline>'' @ replicate 60 120"
    using section_long(1) [of 120 59] by (simp add: not_space_x)
  have c: "strip (ustr ''## C\<newline>'' @ replicate 60 120) = ustr ''## C\<newline>'' @ replicate 60 120"
    using section_long(2) [of 120 59] by (simp add: not_space_x)
  show ?thesis unfolding nested_sections_chunks [OF p p] b c by (simp add: ustr_def)
qed

text \<open>
  C10: in every state of a run of \<open>chunk_markdown\<close> (the state after any number \<open>n\<close> of
  lines) the levels of the header stack increase strictly from bottom to top and lie
  between 1 and 4, so the stack holds at most 4 entries; and the header path of every
  chunk is the file name, or the titles, joined with \<open>" > "\<close>, of the header stack as it
  stands after some number \<open>k\<close> of the lines of this run: a non-empty stack of that kind,
  hence of at most 4 titles.
\<close>

theorem header_stack_levels:
  "stack_ok (header_stack (run filename (take n (split_nl content)))) \<and>
   length (header_stack (run filename (take n (split_nl content)))) \<le> 4 \<and>
   (\<forall>c\<in>set (chunk_markdown content filename).
      header c = filename \<or>
      (\<exists>k hs. hs = header_stack (run filename (take k (split_nl content))) \<and>
         hs \<noteq> [] \<and> stack_ok hs \<and> length hs \<le> 4 \<and>
         header c = join (ustr '' > '') (map snd hs)))"
proof -
  have "\<forall>c\<in>set (chunk_markdown content filename).
      header c = filename \<or>
      (\<exists>k hs. hs = header_stack (run filename (take k (split_nl content))) \<and>
         hs \<noteq> [] \<and> stack_ok hs \<and> length hs \<le> 4 \<and>
         header c = join (ustr '' > '') (map snd hs))"
  proof
    fix c
    assume "c \<in> set (chunk_markdown content filename)"
    then have p: "path_of_run filename (split_nl content) (header c)"
      using chunk_markdown_paths by blast
    show "header c = filename \<or>
      (\<exists>k hs. hs = header_stack (run filename (take k (split_nl content))) \<and>
         hs \<noteq> [] \<and> stack_ok hs \<and> length hs \<le> 4 \<and>
         header c = join (ustr '' > '') (map snd hs))"
    proof (cases "header c = filename")
      case True
      then show ?thesis by simp
    next
      case False
      with p obtain k where k: "header_stack (run filename (take k (split_nl content))) \<noteq> []"
        "header c = join (ustr '' > '')
           (map snd (header_stack (run filename (take k (split_nl content)))))"
        unfolding path_of_run_def by blast
      have "stack_ok (header_stack (run filename (take k (split_nl content))))"
        by (rule run_stack_ok)
      moreover from this have "length (header_stack (run filename (take k (split_nl content)))) \<le> 4"
        by (rule stack_ok_length)
      ultimately show ?thesis using k by blast
    qed
  qed
  then show ?thesis
    using run_stack_ok [of filename "take n (split_nl content)"]
      stack_ok_length [of "header_stack (run filename (take n (split_nl content)))"]
    by blast
qed

theorem header_stack_levels_witness:
  "header_stack (run (ustr ''a.md'') [ustr ''# A'', ustr ''## B'']) =
     [(1, ustr ''A''), (2, ustr ''B'')] \<and>
   stack_ok [(1, ustr ''A''), (2, ustr ''B'')] \<and>
   (\<exists>k hs. hs = header_stack (run (ustr ''a.md'')
        (take k [ustr ''# A'', ustr ''## B'', replicate 60 120, ustr ''## C'', replicate 60 120])) \<and>
      hs \<noteq> [] \<and> stack_ok hs \<and> length hs \<le> 4 \<and>
      ustr ''A > B'' = join (ustr '' > '') (map snd hs))"
proof -
  let ?d = "ustr ''# A\<newline>## B\<newline>'' @ replicate 60 120 @ ustr ''\<newline>## C\<newline>'' @ replicate 60 120"
  have s: "header_stack (run (ustr ''a.md'') [ustr ''# A'', ustr ''## B'']) =
     [(1, ustr ''A''), (2, ustr ''B'')]"
    by (rule nested_stacks(2) [of "[]"]) simp
  have t: "take 2 (split_nl ?d) = [ustr ''# A'', ustr ''## B'']"
    unfolding doc_nested_lines by simp
  have n: "ustr ''A > B'' \<noteq> ustr ''a.md''" by (simp add: ustr_def)
  have 1: "stack_ok [(1, ustr ''A''), (2, ustr ''B'')]"
    using header_stack_levels [of "ustr ''a.md''" 2 ?d] unfolding t s by simp
  have 2: "\<exists>k hs. hs = header_stack (run (ustr ''a.md'')
        (take k [ustr ''# A'', ustr ''## B'', replicate 60 120, ustr ''## C'', replicate 60 120])) \<and>
      hs \<noteq> [] \<and> stack_ok hs \<and> length hs \<le> 4 \<and>
      ustr ''A > B'' = join (ustr '' > '') (map snd hs)"
    using header_stack_levels [of "ustr ''a.md''" 2 ?d] n
    unfolding doc_nested_chunks doc_nested_lines by simp
  from s 1 2 show ?thesis by blast
qed

text \<open>
  C2: a header line of level \<open>L\<close> removes from the stack every entry of level \<open>\<ge> L\<close> and
  then pushes \<open>(L, title)\<close>; the chunk of the buffer this line opens, when it is kept,
  has as header path the titles of the stack at that moment, outermost first, joined with
  \<open>" > "\<close>. In particular a level-3 header that arrives when only a level-1 header with
  title \<open>a\<close> is open gives the path \<open>a > title\<close>, with no level in between.
\<close>

theorem header_stack_discipline:
  assumes "split_nl content = pre @ line # body @ rest"
    and "header_match line = Some (level, title)"
    and "\<forall>l\<in>set body. header_match l = None"
    and "rest = [] \<or> header_match (hd rest) \<noteq> None"
  shows "header_stack (run filename (pre @ [line])) =
           filter (\<lambda>h. fst h < level) (header_stack (run filename pre)) @ [(level, title)] \<and>
         (\<exists>after. chunk_markdown content filename =
            append_chunk filename (run filename pre) @
            (if 50 < length (strip (join [nl] (line # body)))
             then [\<lparr>text = strip (join [nl] (line # body)),
                    header = join (ustr '' > '')
                      (map snd (header_stack (run filename (pre @ [line])))),
                    source = filename\<rparr>]
             else []) @ after) \<and>
         (header_stack (run filename pre) = [(1, a)] \<and> level = 3 \<longrightarrow>
            join (ustr '' > '') (map snd (header_stack (run filename (pre @ [line])))) =
              a @ ustr '' > '' @ title)"
proof -
  have 1: "header_stack (run filename (pre @ [line])) =
           filter (\<lambda>h. fst h < level) (header_stack (run filename pre)) @ [(level, title)]"
    using assms(2) by (rule stack_after_header)
  have "chunk_markdown content filename =
      append_chunk filename (foldl (step filename) (run filename (pre @ line # body)) rest)"
    unfolding chunk_markdown_def assms(1) using run_append [of filename "pre @ line # body" rest]
    by simp
  then obtain after where "chunk_markdown content filename =
      append_chunk filename (run filename (pre @ line # body)) @ after"
    using chunks_after_boundary [OF assms(4), of filename "run filename (pre @ line # body)"]
    by auto
  then have 2: "\<exists>after. chunk_markdown content filename =
            append_chunk filename (run filename pre) @
            (if 50 < length (strip (join [nl] (line # body)))
             then [\<lparr>text = strip (join [nl] (line # body)),
                    header = join (ustr '' > '')
                      (map snd (header_stack (run filename (pre @ [line])))),
                    source = filename\<rparr>]
             else []) @ after"
    unfolding section_chunk [OF assms(2,3)] by auto
  have 3: "header_stack (run filename pre) = [(1, a)] \<and> level = 3 \<longrightarrow>
            join (ustr '' > '') (map snd (header_stack (run filename (pre @ [line])))) =
              a @ ustr '' > '' @ title"
    unfolding 1 by simp
  from 1 2 3 show ?thesis by blast
qed

theorem header_stack_discipline_witness:
  "header_stack (run (ustr ''a.md'') [ustr ''# A'', ustr ''### C'']) =
     [(1, ustr ''A''), (3, ustr ''C'')] \<and>
   (\<exists>after. chunk_markdown (ustr ''# A\<newline>### C\<newline>'' @ replicate 60 120) (ustr ''a.md'') =
      \<lparr>text = ustr ''### C\<newline>'' @ replicate 60 120, header = ustr ''A > C'',
        source = ustr ''a.md''\<rparr> # after)"
proof -
  let ?f = "ustr ''a.md''"
  let ?d = "ustr ''# A\<newline>### C\<newline>'' @ replicate 60 120"
  have r: "split_nl (replicate 60 120) = [replicate 60 120]"
    by (rule split_nl_no_nl) (simp add: nl_def)
  have a: "split_nl (ustr ''# A'') = [ustr ''# A'']"
    by (rule split_nl_no_nl) (simp add: ustr_def nl_def)
  have c: "split_nl (ustr ''### C'') = [ustr ''### C'']"
    by (rule split_nl_no_nl) (simp add: ustr_def nl_def)
  have "?d = ustr ''# A'' @ nl # (ustr ''### C'' @ nl # replicate 60 120)"
    by (simp add: ustr_def nl_def)
  then have l: "split_nl ?d = [ustr ''# A''] @ ustr ''### C'' # [replicate 60 120] @ []"
    by (simp only: split_nl_append a c r append.simps)
  have b: "\<forall>l\<in>set [replicate 60 120]. header_match l = None"
    by (simp add: header_match_replicate hash_def)
  have s: "header_stack (run ?f [ustr ''# A'']) = [(1, ustr ''A'')]"
    by (rule nested_stacks(1) [of "[]"]) simp
  have 0: "append_chunk ?f (run ?f []) = []"
    by (simp add: run_def init_def append_chunk_eq kept_Nil)
  have "\<not> 50 < length (strip (join [nl] [ustr ''# A'']))"
    using length_strip [of "ustr ''# A''"] by (simp add: ustr_def)
  then have e: "append_chunk ?f (run ?f [ustr ''# A'']) = []"
    using section_chunk [OF header_match_A, of "[]" ?f "[]"] 0 by simp
  have t: "strip (join [nl] [ustr ''### C'', replicate 60 120]) = ustr ''### C\<newline>'' @ replicate 60 120"
    using section_long(3) [of 120 59] by (simp add: not_space_x ustr_def nl_def)
  have g: "50 < length (ustr ''### C\<newline>'' @ replicate 60 120)" by (simp add: ustr_def)
  show ?thesis
    using header_stack_discipline [OF l header_match_C3 b, of ?f "ustr ''A''"] s g
    unfolding e t by (auto simp add: ustr_def)
qed

section \<open>Relevance in the query tool\<close>

lemma str_nat_percent: "str_nat 100 = ustr ''100''" "str_nat 50 = ustr ''50''" "str_nat 0 = ustr ''0''"
  by (simp_all add: str_nat.simps ustr_def)

lemma floor_log2_eq:
  assumes "2 powi e \<le> \<bar>x\<bar>" "\<bar>x\<bar> < 2 powi (e + 1)"
  shows "\<lfloor>log 2 \<bar>x\<bar>\<rfloor> = e"
proof -
  have "0 < (2::real) powi e" by simp
  with assms(1) have p: "0 < \<bar>x\<bar>" by linarith
  have "(2::real) powr real_of_int e = 2 powi e" "(2::real) powr (real_of_int e + 1) = 2 powi (e + 1)"
    using powr_real_of_int' [of "2::real" e] powr_real_of_int' [of "2::real" "e + 1"] by simp_all
  then show ?thesis using assms floor_log_eq_powr_iff [OF p, of 2 e] by simp
qed

lemma round64_at:
  fixes x u :: real
  assumes "2 powi e \<le> \<bar>x\<bar>" "\<bar>x\<bar> < 2 powi (e + 1)"
    and "u = 2 powi (max e (- 1022) - 52)"
    and "round_half_even (x / u) = q"
  shows "round64 x = (if 2 ^ 1024 \<le> \<bar>of_int q * u\<bar> then Infinity (x < 0) else Finite (of_int q * u))"
proof -
  have "0 < (2::real) powi e" by simp
  with assms(1) have "0 < \<bar>x\<bar>" by linarith
  then have "x \<noteq> 0" by simp
  then show ?thesis
    unfolding round64_def floor_log2_eq [OF assms(1,2)] using assms(3,4) by (simp add: Let_def)
qed

lemma round64_0: "round64 0 = Finite 0"
  by (simp add: round64_def)

lemma round64_1: "round64 1 = Finite 1"
  using round64_at [of 0 1 "1 / 4503599627370496" 4503599627370496]
  by (simp add: round_half_even_def)

lemma round64_half: "round64 (1 / 2) = Finite (1 / 2)"
  using round64_at [of "- 1" "1 / 2" "1 / 9007199254740992" 4503599627370496]
  by (simp add: round_half_even_def)

lemma round64_50: "round64 50 = Finite 50"
  using round64_at [of 5 50 "1 / 140737488355328" 7036874417766400]
  by (simp add: round_half_even_def)

lemma round64_100: "round64 100 = Finite 100"
  using round64_at [of 6 100 "1 / 70368744177664" 7036874417766400]
  by (simp add: round_half_even_def)

lemma relevance_eq: "relevance d = one_minus (half d)"
  by (cases d) (simp_all add: relevance_def truthy_def half_def one_minus_def round64_0 round64_1)

lemma relevance_values:
  "relevance (Finite 0) = Finite 1" "relevance (Finite 1) = Finite (1 / 2)"
  "relevance (Finite 2) = Finite 0"
  by (simp_all add: relevance_def truthy_def half_def one_minus_def round64_0 round64_1
      round64_half)

lemma str_nat_57: "str_nat 57 = ustr ''57''"
  by (simp add: str_nat.simps ustr_def)

lemma format_percent_values:
  "format_percent (Finite 1) = ustr ''100%''" "format_percent (Finite (1 / 2)) = ustr ''50%''"
  "format_percent (Finite 0) = ustr ''0%''"
  by (simp_all add: format_percent_def times100_def round64_100 round64_50 round64_0
      round_half_even_def str_nat_percent) (simp_all add: ustr_def)

text \<open>
  The double nearest to 0.85 is \<open>7656119366529843 / 2 ^ 53\<close>. Halving it is exact; the
  difference from 1 lies halfway between two doubles and goes to the even one, below
  0.575; the product with 100 is below 57.5 and is shown as 57%.
\<close>

lemma relevance_of_085:
  "relevance (Finite (7656119366529843 / 9007199254740992)) =
     Finite (5179139571476070 / 9007199254740992)"
proof -
  have h: "half (Finite (7656119366529843 / 9007199254740992)) =
      Finite (7656119366529843 / 18014398509481984)"
    unfolding half_def
    using round64_at [of "- 2" "7656119366529843 / 9007199254740992 / 2"
        "1 / 18014398509481984" 7656119366529843]
    by (simp add: round_half_even_def)
  have "one_minus (Finite (7656119366529843 / 18014398509481984)) =
      Finite (5179139571476070 / 9007199254740992)"
    unfolding one_minus_def
    using round64_at [of "- 1" "1 - 7656119366529843 / 18014398509481984"
        "1 / 9007199254740992" 5179139571476070]
    by (simp add: round_half_even_def)
  with h show ?thesis by (simp add: relevance_def truthy_def)
qed

lemma percent_of_085:
  "format_percent (relevance (Finite (7656119366529843 / 9007199254740992))) = ustr ''57%''"
proof -
  have "times100 (Finite (5179139571476070 / 9007199254740992)) =
      Finite (8092405580431359 / 140737488355328)"
    unfolding times100_def
    using round64_at [of 5 "5179139571476070 / 9007199254740992 * 100"
        "1 / 140737488355328" 8092405580431359]
    by (simp add: round_half_even_def)
  then show ?thesis
    unfolding relevance_of_085 format_percent_def
    by (simp add: round_half_even_def str_nat_57) (simp add: ustr_def)
qed

lemma percent_of_inf_nan:
  "format_percent (relevance (Infinity False)) = ustr ''-inf%''"
  "format_percent (relevance (Infinity True)) = ustr ''inf%''"
  "format_percent (relevance NaN) = ustr ''nan%''"
  by (simp_all add: relevance_def truthy_def half_def one_minus_def format_percent_def
      times100_def) (simp_all add: ustr_def)

lemma show_result_stdout:
  "\<exists>a b c. stdout (show_result w (i, doc, m, d)) =
     stdout w @ [a, ustr ''    Relevance: '' @ format_percent (relevance d), b, c, []]"
  by (simp add: show_result_def print_def Let_def)

lemma foldl_show_result_extends:
  "\<exists>x. stdout (foldl show_result w rows) = stdout w @ x \<and> length x = 5 * length rows"
proof (induction rows arbitrary: w)
  case Nil
  show ?case by simp
next
  case (Cons r rows)
  obtain i doc m d where r: "r = (i, doc, m, d)" by (cases r)
  obtain a b c where s: "stdout (show_result w r) =
      stdout w @ [a, ustr ''    Relevance: '' @ format_percent (relevance d), b, c, []]"
    using show_result_stdout [of w i doc m d] r by auto
  obtain x where "stdout (foldl show_result (show_result w r) rows) = stdout (show_result w r) @ x"
    "length x = 5 * length rows"
    using Cons [of "show_result w r"] by auto
  then show ?case using s by simp
qed

lemma foldl_show_result_nth:
  assumes "i < length rows"
  shows "stdout (foldl show_result w rows) ! (length (stdout w) + 5 * i + 1) =
     ustr ''    Relevance: '' @ format_percent (relevance (snd (snd (snd (rows ! i)))))"
  using assms
proof (induction rows arbitrary: w i)
  case Nil
  then show ?case by simp
next
  case (Cons r rows)
  obtain j doc m d where r: "r = (j, doc, m, d)" by (cases r)
  obtain a b c where s: "stdout (show_result w r) =
      stdout w @ [a, ustr ''    Relevance: '' @ format_percent (relevance d), b, c, []]"
    using show_result_stdout [of w j doc m d] r by auto
  obtain x where x: "stdout (foldl show_result (show_result w r) rows) = stdout (show_result w r) @ x"
    using foldl_show_result_extends [of "show_result w r" rows] by auto
  show ?case
  proof (cases i)
    case 0
    then show ?thesis using x s r by (simp add: nth_append)
  next
    case (Suc k)
    then have k: "k < length rows" using Cons.prems by simp
    have "length (stdout (show_result w r)) + 5 * k + 1 = length (stdout w) + 5 * i + 1"
      using s Suc by simp
    then show ?thesis using Cons.IH [OF k, of "show_result w r"] Suc by simp
  qed
qed

lemma query_results:
  assumes "store w = Some es"
    and "knn es query_text n_results = results"
    and "documents results = Some (docs # more_docs)" "docs \<noteq> []"
    and "metadatas results = Some (metas # more_metas)"
  shows "query knn query_text n_results w =
     (Returned,
      foldl show_result
        (print (replicate 60 61)
           (print (ustr ''Query: '' @ query_text @ [nl])
              (w\<lparr>calls := calls w @ [Get_collection, Query query_text n_results]\<rparr>)))
        (zip [0..<length (zip docs (zip metas (result_distances results docs)))]
           (zip docs (zip metas (result_distances results docs)))))"
  using assms by (simp add: query_def query_store_def Let_def print_def)

lemma query_relevance_line:
  assumes "store w = Some es"
    and "knn es query_text n_results = results"
    and "documents results = Some (docs # more_docs)" "docs \<noteq> []"
    and "metadatas results = Some (metas # more_metas)"
    and "i < length docs" "i < length metas" "i < length (result_distances results docs)"
  shows "stdout (snd (query knn query_text n_results w)) ! (length (stdout w) + 2 + 5 * i + 1) =
     ustr ''    Relevance: '' @ format_percent (relevance (result_distances results docs ! i))"
proof -
  let ?z = "zip docs (zip metas (result_distances results docs))"
  let ?rows = "zip [0..<length ?z] ?z"
  let ?w = "print (replicate 60 61)
           (print (ustr ''Query: '' @ query_text @ [nl])
              (w\<lparr>calls := calls w @ [Get_collection, Query query_text n_results]\<rparr>))"
  have i: "i < length ?rows" using assms(6-8) by simp
  then have "snd (snd (snd (?rows ! i))) = result_distances results docs ! i"
    by simp
  moreover have "length (stdout ?w) = length (stdout w) + 2" by (simp add: print_def)
  ultimately show ?thesis
    unfolding query_results [of w es knn query_text n_results results docs more_docs metas more_metas, OF assms(1-5)]
    using foldl_show_result_nth [OF i, of ?w] by simp
qed

text \<open>
  C5: for every distance the relevance is the float \<open>1 - distance / 2\<close> (at a zero distance
  the code takes the default 1.0, which is the same float). When the query returns
  results, the second output line of the result at rank \<open>i\<close> shows, as a percentage, the
  relevance of the \<open>i\<close>-th distance; these distances are the ones the store reports, or
  zeros, one for every document, when it reports none. The distances 0.0, 1.0 and 2.0 are
  shown as 100%, 50% and 0%, so a missing or a zero distance is shown as 100%.
\<close>

theorem relevance_formula:
  assumes "store w = Some es"
    and "knn es query_text n_results = results"
    and "documents results = Some (docs # more_docs)" "docs \<noteq> []"
    and "metadatas results = Some (metas # more_metas)"
    and "i < length docs" "i < length metas" "i < length (result_distances results docs)"
  shows "relevance d = one_minus (half d) \<and>
         fst (query knn query_text n_results w) = Returned \<and>
         stdout (snd (query knn query_text n_results w)) ! (length (stdout w) + 2 + 5 * i + 1) =
           ustr ''    Relevance: '' @
           format_percent (one_minus (half (result_distances results docs ! i))) \<and>
         (\<forall>ds rest. distances results = Some (ds # rest) \<longrightarrow>
            result_distances results docs = ds) \<and>
         (distances results = None \<or> distances results = Some [] \<longrightarrow>
            result_distances results docs = replicate (length docs) (Finite 0)) \<and>
         format_percent (one_minus (half (Finite 0))) = ustr ''100%'' \<and>
         format_percent (one_minus (half (Finite 1))) = ustr ''50%'' \<and>
         format_percent (one_minus (half (Finite 2))) = ustr ''0%''"
proof -
  have 1: "fst (query knn query_text n_results w) = Returned"
    unfolding query_results [of w es knn query_text n_results results docs more_docs metas more_metas, OF assms(1-5)] by simp
  have 2: "stdout (snd (query knn query_text n_results w)) ! (length (stdout w) + 2 + 5 * i + 1) =
           ustr ''    Relevance: '' @
           format_percent (one_minus (half (result_distances results docs ! i)))"
    using query_relevance_line [of w es knn query_text n_results results docs more_docs metas more_metas i, OF assms] by (simp add: relevance_eq)
  have 3: "\<forall>ds rest. distances results = Some (ds # rest) \<longrightarrow>
            result_distances results docs = ds"
    by (simp add: result_distances_def)
  have 4: "distances results = None \<or> distances results = Some [] \<longrightarrow>
            result_distances results docs = replicate (length docs) (Finite 0)"
    by (auto simp: result_distances_def)
  have 5: "format_percent (one_minus (half (Finite 0))) = ustr ''100%''"
    "format_percent (one_minus (half (Finite 1))) = ustr ''50%''"
    "format_percent (one_minus (half (Finite 2))) = ustr ''0%''"
    unfolding relevance_eq [symmetric] relevance_values by (rule format_percent_values)+
  from relevance_eq 1 2 3 4 5 show ?thesis by blast
qed

theorem relevance_formula_witness:
  "stdout (snd (query one_hit (ustr ''import error'') 5
      \<lparr>stdout = [], store = Some [], calls = []\<rparr>)) ! 3 = ustr ''    Relevance: 50%'' \<and>
   stdout (snd (query one_hit_no_distance (ustr ''import error'') 5
      \<lparr>stdout = [], store = Some [], calls = []\<rparr>)) ! 3 = ustr ''    Relevance: 100%''"
proof -
  let ?w = "\<lparr>stdout = [], store = Some [], calls = []\<rparr>"
  let ?m = "\<lparr>meta_header = ustr ''A'', meta_source = ustr ''a.md''\<rparr>"
  let ?q = "ustr ''import error''"
  have s: "store ?w = Some []" by simp
  have d1: "documents (one_hit [] ?q 5) = Some ([ustr ''body''] # [])"
    and m1: "metadatas (one_hit [] ?q 5) = Some ([?m] # [])"
    and r1: "result_distances (one_hit [] ?q 5) [ustr ''body''] = [Finite 1]"
    by (simp_all add: one_hit_def result_distances_def)
  have d2: "documents (one_hit_no_distance [] ?q 5) = Some ([ustr ''body''] # [])"
    and m2: "metadatas (one_hit_no_distance [] ?q 5) = Some ([?m] # [])"
    and r2: "result_distances (one_hit_no_distance [] ?q 5) [ustr ''body''] = [Finite 0]"
    by (simp_all add: one_hit_no_distance_def result_distances_def)
  have n: "[ustr ''body''] \<noteq> []" "0 < length [ustr ''body'']" "0 < length [?m]" by simp_all
  have i1: "0 < length (result_distances (one_hit [] ?q 5) [ustr ''body''])"
    unfolding r1 by simp
  have i2: "0 < length (result_distances (one_hit_no_distance [] ?q 5) [ustr ''body''])"
    unfolding r2 by simp
  note t1 = relevance_formula [of ?w "[]" one_hit ?q 5 "one_hit [] ?q 5" "[ustr ''body'']" "[]"
      "[?m]" "[]" 0 "Finite 1", OF s refl d1 n(1) m1 n(2,3) i1]
  note t2 = relevance_formula [of ?w "[]" one_hit_no_distance ?q 5 "one_hit_no_distance [] ?q 5"
      "[ustr ''body'']" "[]" "[?m]" "[]" 0 "Finite 0", OF s refl d2 n(1) m2 n(2,3) i2]
  have ix: "length (stdout ?w) + 2 + 5 * 0 + 1 = 3" by simp
  have e1: "[Finite 1] ! 0 = Finite 1" and e2: "[Finite 0] ! 0 = Finite 0" by simp_all
  note l1 = t1 [THEN conjunct2, THEN conjunct2, THEN conjunct1, unfolded r1 ix e1]
  note v1 = t1 [THEN conjunct2, THEN conjunct2, THEN conjunct2, THEN conjunct2, THEN conjunct2,
      THEN conjunct2, THEN conjunct1]
  note l2 = t2 [THEN conjunct2, THEN conjunct2, THEN conjunct1, unfolded r2 ix e2]
  note v2 = t2 [THEN conjunct2, THEN conjunct2, THEN conjunct2, THEN conjunct2, THEN conjunct2,
      THEN conjunct1]
  have a: "stdout (snd (query one_hit ?q 5 ?w)) ! 3 = ustr ''    Relevance: '' @ ustr ''50%''"
    using l1 unfolding v1 .
  have b: "stdout (snd (query one_hit_no_distance ?q 5 ?w)) ! 3 =
      ustr ''    Relevance: '' @ ustr ''100%''"
    using l2 unfolding v2 .
  have c: "ustr ''    Relevance: '' @ ustr ''50%'' = ustr ''    Relevance: 50%''"
    "ustr ''    Relevance: '' @ ustr ''100%'' = ustr ''    Relevance: 100%''"
    by (simp_all add: ustr_def)
  from a b show ?thesis unfolding c by (rule conjI)
qed

section \<open>Indexing without chunks\<close>

lemma process_files_empty:
  assumes "concat (map (\<lambda>(name, content). chunk_markdown content name) files) = []"
  shows "foldl process_file (w, acc) files =
     (w\<lparr>stdout := stdout w @
          concat (map (\<lambda>(name, content). [ustr ''Processing: '' @ name, ustr ''  -> 0 chunks''])
                    files)\<rparr>, acc)"
  using assms
proof (induction files arbitrary: w)
  case Nil
  show ?case by simp
next
  case (Cons md_file files)
  obtain name content where f: "md_file = (name, content)" by (cases md_file)
  from Cons.prems f have e: "chunk_markdown content name = []"
    and r: "concat (map (\<lambda>(name, content). chunk_markdown content name) files) = []"
    by simp_all
  have "process_file (w, acc) md_file =
      (w\<lparr>stdout := stdout w @ [ustr ''Processing: '' @ name, ustr ''  -> 0 chunks'']\<rparr>, acc)"
    unfolding f by (simp add: process_file_def print_def e str_nat_percent(3) ustr_def)
  then show ?case using Cons.IH [OF r] f by simp
qed

text \<open>
  C8: when the files give no chunk at all, \<open>main\<close> prints, after the line of the deleted
  collection (if there was one) and the two progress lines of every file, the message
  \<open>No chunks found!\<close> and returns: the only calls made to the store are the deletion and
  the creation of the collection, so nothing is inserted and the new collection is empty.
  \<open>main\<close> is total, so it returns; the one exception the code handles, a failing
  deletion, is absorbed.
\<close>

theorem no_chunks_found:
  assumes "concat (map (\<lambda>(name, content). chunk_markdown content name) files) = []"
  shows "stdout (main files knn w) =
           stdout w @
           (if store w = None then [] else [ustr ''Deleted existing collection'']) @
           concat (map (\<lambda>(name, content). [ustr ''Processing: '' @ name, ustr ''  -> 0 chunks''])
                     files) @
           [ustr ''No chunks found!''] \<and>
         store (main files knn w) = Some [] \<and>
         calls (main files knn w) = calls w @ [Delete_collection, Create_collection]"
  by (simp add: main_def delete_collection_def create_collection_def print_def
      process_files_empty [OF assms])

theorem no_chunks_found_witness:
  "stdout (main [(ustr ''a.md'', ustr ''too short'')] no_hits
     \<lparr>stdout = [], store = None, calls = []\<rparr>) =
     [ustr ''Processing: a.md'', ustr ''  -> 0 chunks'', ustr ''No chunks found!''] \<and>
   store (main [(ustr ''a.md'', ustr ''too short'')] no_hits
     \<lparr>stdout = [], store = None, calls = []\<rparr>) = Some []"
proof -
  have p: "\<forall>l\<in>set (split_nl (ustr ''too short'')). header_match l = None"
    by (simp add: ustr_def nl_def header_match_eq hash_def)
  have "\<not> 50 < length (strip (ustr ''too short''))"
    using length_strip [of "ustr ''too short''"] by (simp add: ustr_def)
  then have "chunk_markdown (ustr ''too short'') (ustr ''a.md'') = []"
    by (simp add: no_header_chunks [OF p])
  then have e: "concat (map (\<lambda>(name, content). chunk_markdown content name)
      [(ustr ''a.md'', ustr ''too short'')]) = []" by simp
  show ?thesis
    using no_chunks_found [OF e, of no_hits
        "\<lparr>stdout = [], store = None, calls = []\<rparr>"]
    by (simp add: ustr_def)
qed

end
